theory Spec2Isabelle
  imports Main "HOL-Library.Word" "HOL-Library.Multiset" "HOL-Library.Tree"
begin

unbundle bit_operations_syntax

section \<open>The boot-time range allocator of src/balloc.c\<close>

subsection \<open>Data model\<close>

text \<open>
  Addresses are \<open>unsigned long long\<close>; \<open>uintptr_t\<close> and \<open>size_t\<close> are taken to be
  64 bits wide as well (the kernel stores 64-bit physical addresses in them), so every
  quantity of the allocator is a 64-bit word and \<open>+\<close> wraps around.
\<close>

type_synonym u64 = "64 word"

text \<open>
  \<open>struct memory_node\<close>: one slot of the static array \<open>balloc_nodes\<close>. The field
  \<open>node_id\<close> is the index of the slot in that array, i.e. the identity of the node
  (what a pointer to it denotes); \<open>m_begin\<close> and \<open>m_end\<close> are the fields
  \<open>begin\<close> and \<open>end\<close>.
\<close>

record memory_node =
  node_id :: nat
  m_begin :: u64
  m_end :: u64

text \<open>
  Modelled from the spec: the red-black tree (\<open>struct rb_tree\<close>, \<open>rb_link\<close>,
  \<open>rb_insert\<close>, \<open>rb_erase\<close>, \<open>rb_next\<close>, \<open>rb_prev\<close>) is declared in a header
  that is not part of the sources. The spec describes it as a balanced binary search
  tree with neighbour traversal. The contents of a tree are represented by the sequence
  of its nodes in traversal order (what \<open>rb_leftmost\<close> followed by repeated
  \<open>rb_next\<close> visits), which no rotation changes. The shape of a tree is decided by
  the rebalancing code that is missing, so it is not part of the state: an operation
  whose outcome can depend on the shape takes the tree in the shape it has at the call,
  a binary tree whose traversal is the stored sequence, and returns the sequence it
  leaves. The two descents of the source are written on such a binary tree
  (\<open>link_descent\<close> and \<open>rb_link_at\<close>, \<open>first_descent\<close>).
\<close>

type_synonym rb_tree = "memory_node list"

text \<open>
  \<open>balloc_free_list\<close>: the intrusive list of unused slots, as the list of their
  indices, head first.
\<close>

type_synonym free_list = "nat list"

text \<open>The three globals: \<open>memory_map\<close>, \<open>free_ranges\<close> and \<open>balloc_free_list\<close>.\<close>

record balloc_state =
  memory_map :: rb_tree
  free_ranges :: rb_tree
  balloc_free_list :: free_list

definition BALLOC_MAX_RANGES :: nat where
  "BALLOC_MAX_RANGES = 128"

subsection \<open>Node pool\<close>

text \<open>
  \<open>balloc_alloc_node\<close>: \<open>BUG_ON\<close> an empty list halts the kernel, which is the
  result \<open>None\<close>; otherwise the head is unlinked and returned.
\<close>

fun balloc_alloc_node :: "free_list \<Rightarrow> (nat \<times> free_list) option" where
  "balloc_alloc_node [] = None"
| "balloc_alloc_node (i # p) = Some (i, p)"

text \<open>\<open>balloc_free_node\<close>: \<open>list_add\<close> links the slot in right after the list head.\<close>

definition balloc_free_node :: "nat \<Rightarrow> free_list \<Rightarrow> free_list" where
  "balloc_free_node i p = i # p"

subsection \<open>Tree primitives on the traversal sequence\<close>

text \<open>The node a pointer denotes, if it is linked into the tree.\<close>

definition node_of :: "rb_tree \<Rightarrow> nat \<Rightarrow> memory_node option" where
  "node_of t i = find (\<lambda>n. node_id n = i) t"

text \<open>\<open>rb_next\<close>: the in-order successor of the node at \<open>i\<close>, as a pointer.\<close>

definition rb_next :: "rb_tree \<Rightarrow> nat \<Rightarrow> nat option" where
  "rb_next t i =
     (case dropWhile (\<lambda>n. node_id n \<noteq> i) t of
        _ # m # _ \<Rightarrow> Some (node_id m)
      | _ \<Rightarrow> None)"

text \<open>\<open>rb_erase\<close>: unlink the node at \<open>i\<close>; the order of the others is kept.\<close>

definition rb_erase :: "rb_tree \<Rightarrow> nat \<Rightarrow> rb_tree" where
  "rb_erase t i = filter (\<lambda>n. node_id n \<noteq> i) t"

subsection \<open>The descents on a binary tree\<close>

text \<open>
  The first loop of \<open>__balloc_add_range\<close> on a binary tree of any shape: the number of
  nodes that precede, in the traversal, the link the loop stops at.
\<close>

fun link_descent :: "memory_node tree \<Rightarrow> u64 \<Rightarrow> nat" where
  "link_descent Leaf from = 0"
| "link_descent (Node l n r) from =
     (if m_begin n < from then size l + 1 + link_descent r from else link_descent l from)"

text \<open>
  The same loop followed by \<open>rb_link\<close>: the new node, whose \<open>begin\<close> is \<open>from\<close>,
  hangs as a leaf at the link the loop stops at. This is the tree that \<open>rb_insert\<close>
  then rebalances.
\<close>

fun rb_link_at :: "memory_node tree \<Rightarrow> memory_node \<Rightarrow> memory_node tree" where
  "rb_link_at Leaf new = Node Leaf new Leaf"
| "rb_link_at (Node l n r) new =
     (if m_begin n < m_begin new then Node l n (rb_link_at r new)
      else Node (rb_link_at l new) n r)"

text \<open>
  The first loop of \<open>__balloc_remove_range\<close> and \<open>__balloc_alloc\<close> on a binary tree;
  \<open>ptr\<close> is the variable of that name.
\<close>

fun first_descent :: "memory_node tree \<Rightarrow> u64 \<Rightarrow> memory_node option \<Rightarrow> memory_node option" where
  "first_descent Leaf from ptr = ptr"
| "first_descent (Node l n r) from ptr =
     (if m_end n > from then first_descent l from (Some n) else first_descent r from ptr)"

text \<open>The pointer that loop leaves in \<open>ptr\<close>, which starts as null.\<close>

definition first_ptr :: "memory_node tree \<Rightarrow> u64 \<Rightarrow> nat option" where
  "first_ptr T from = map_option node_id (first_descent T from None)"

subsection \<open>Insertion with coalescing\<close>

text \<open>
  The first \<open>if\<close> of \<open>__balloc_add_range\<close>: \<open>L\<close> are the nodes in front of the new
  node, so \<open>rb_prev\<close> is the last of them. When it reaches the new range it is absorbed:
  the new node takes its \<open>begin\<close> and the larger \<open>end\<close>, and its slot goes back to
  the pool.
\<close>

definition absorb_prev ::
  "memory_node list \<Rightarrow> memory_node \<Rightarrow> free_list \<Rightarrow> memory_node list \<times> memory_node \<times> free_list" where
  "absorb_prev L new p =
     (if L \<noteq> [] \<and> m_end (last L) \<ge> m_begin new
      then (butlast L,
            new\<lparr>m_begin := m_begin (last L),
                m_end := (if m_end (last L) > m_end new then m_end (last L) else m_end new)\<rparr>,
            balloc_free_node (node_id (last L)) p)
      else (L, new, p))"

text \<open>
  The second \<open>if\<close>: \<open>R\<close> are the nodes behind the new node, so \<open>rb_next\<close> is the
  first of them. When it starts at or before the new end it is absorbed and the new node
  takes its \<open>end\<close>, whatever the new node's own \<open>end\<close> was.
\<close>

definition absorb_next ::
  "memory_node list \<Rightarrow> memory_node \<Rightarrow> free_list \<Rightarrow> memory_node list \<times> memory_node \<times> free_list" where
  "absorb_next R new p =
     (case R of
        [] \<Rightarrow> (R, new, p)
      | nxt # R' \<Rightarrow>
          if m_begin nxt \<le> m_end new
          then (R', new\<lparr>m_end := m_end nxt\<rparr>, balloc_free_node (node_id nxt) p)
          else (R, new, p))"

text \<open>
  \<open>__balloc_add_range\<close> (the prefix \<open>uu_\<close> stands for the two leading underscores). The
  descent goes right at every node with \<open>begin < from\<close> and left otherwise. Every tree
  the allocator builds is ordered by \<open>begin\<close> along its traversal, whatever the
  arguments of the calls were, and on such a tree of any shape the new node is linked
  behind the nodes with \<open>begin < from\<close> and in front of the others.
\<close>

definition uu_balloc_add_range ::
  "rb_tree \<Rightarrow> free_list \<Rightarrow> u64 \<Rightarrow> u64 \<Rightarrow> (rb_tree \<times> free_list) option" where
  "uu_balloc_add_range t p from to =
     (case balloc_alloc_node p of
        None \<Rightarrow> None
      | Some (i, p1) \<Rightarrow>
          (case absorb_prev (takeWhile (\<lambda>n. m_begin n < from) t)
                  \<lparr>node_id = i, m_begin = from, m_end = to\<rparr> p1 of
             (L, new1, p2) \<Rightarrow>
               (case absorb_next (dropWhile (\<lambda>n. m_begin n < from) t) new1 p2 of
                  (R, new2, p3) \<Rightarrow> Some (L @ new2 # R, p3))))"

subsection \<open>Removal\<close>

text \<open>
  The descent shared by \<open>__balloc_remove_range\<close> and \<open>__balloc_alloc\<close> goes left
  and remembers the node where \<open>end > from\<close> and goes right otherwise
  (\<open>first_descent\<close>). On a tree whose stored ends ascend along the traversal, as in
  every interval set that satisfies the invariant, it ends at the first node of the
  traversal with \<open>end > from\<close>, which is \<open>first_above\<close>. On a tree whose ends do
  not ascend the node it ends at depends on the shape, and \<open>first_above\<close> is not used
  there.
\<close>

definition first_above :: "rb_tree \<Rightarrow> u64 \<Rightarrow> memory_node option" where
  "first_above t from = find (\<lambda>n. m_end n > from) t"

text \<open>
  The second loop of \<open>__balloc_remove_range\<close>. \<open>ptr\<close> is a pointer (a slot index) or
  null. The result \<open>None\<close> stands for a call that does not return a defined result: the
  pool is exhausted and \<open>BUG_ON\<close> halts, the loop does not terminate, or \<open>ptr\<close> is a
  node that \<open>__balloc_add_range\<close> has absorbed and returned to the pool in the meantime
  (the source would then read a dead node).
\<close>

partial_function (option) remove_loop ::
  "u64 \<Rightarrow> u64 \<Rightarrow> nat option \<Rightarrow> rb_tree \<Rightarrow> free_list \<Rightarrow> (rb_tree \<times> free_list) option" where
  "remove_loop from to ptr t p =
     (case ptr of
        None \<Rightarrow> Some (t, p)
      | Some i \<Rightarrow>
          (case node_of t i of
             None \<Rightarrow> None
           | Some n \<Rightarrow>
               if m_begin n < to then
                 (case (if m_begin n < from
                        then uu_balloc_add_range (rb_erase t i) p (m_begin n) from
                        else Some (rb_erase t i, p)) of
                    None \<Rightarrow> None
                  | Some (t2, p2) \<Rightarrow>
                      (case (if m_end n > to
                             then uu_balloc_add_range t2 p2 to (m_end n)
                             else Some (t2, p2)) of
                         None \<Rightarrow> None
                       | Some (t3, p3) \<Rightarrow>
                           remove_loop from to (rb_next t i) t3 (balloc_free_node i p3)))
               else Some (t, p)))"

declare remove_loop.simps [code]

text \<open>
  \<open>__balloc_remove_range\<close> on the tree \<open>T\<close>, in the shape it has at the call: the
  descent on \<open>T\<close>, then the loop. The result is the traversal of the tree afterwards
  and the pool.
\<close>

definition uu_balloc_remove_range_on ::
  "memory_node tree \<Rightarrow> free_list \<Rightarrow> u64 \<Rightarrow> u64 \<Rightarrow> (rb_tree \<times> free_list) option" where
  "uu_balloc_remove_range_on T p from to =
     remove_loop from to (first_ptr T from) (inorder T) p"

text \<open>
  The same on the traversal alone, for a tree whose stored ends ascend along the
  traversal: there the descent ends at \<open>first_above\<close> whatever the shape is.
\<close>

definition uu_balloc_remove_range ::
  "rb_tree \<Rightarrow> free_list \<Rightarrow> u64 \<Rightarrow> u64 \<Rightarrow> (rb_tree \<times> free_list) option" where
  "uu_balloc_remove_range t p from to =
     remove_loop from to (map_option node_id (first_above t from)) t p"

subsection \<open>Observations\<close>

text \<open>What \<open>__balloc_dump_ranges\<close> prints: the ranges in traversal order.\<close>

definition ranges :: "rb_tree \<Rightarrow> (u64 \<times> u64) list" where
  "ranges t = map (\<lambda>n. (m_begin n, m_end n)) t"

text \<open>The addresses covered by the stored half-open ranges.\<close>

definition covered :: "rb_tree \<Rightarrow> u64 set" where
  "covered t = (\<Union>n\<in>set t. {m_begin n ..< m_end n})"

text \<open>
  The invariant of an interval set: every stored range is non-empty and each range ends
  strictly below the begin of every later one (disjoint and not touching).
\<close>

definition interval_inv :: "rb_tree \<Rightarrow> bool" where
  "interval_inv t \<longleftrightarrow>
     list_all (\<lambda>n. m_begin n < m_end n) t \<and> sorted_wrt (\<lambda>a b. m_end a < m_begin b) t"

text \<open>
  The same with stored ranges that may be empty, which is what the trees satisfy once a
  range of length zero has been inserted.
\<close>

definition weak_inv :: "rb_tree \<Rightarrow> bool" where
  "weak_inv t \<longleftrightarrow>
     list_all (\<lambda>n. m_begin n \<le> m_end n) t \<and> sorted_wrt (\<lambda>a b. m_end a < m_begin b) t"

text \<open>Distinct slots: no slot is linked twice or both linked and on the free list.\<close>

definition slots_ok :: "rb_tree \<Rightarrow> free_list \<Rightarrow> bool" where
  "slots_ok t p \<longleftrightarrow> distinct (map node_id t @ p)"


subsection \<open>Allocation\<close>

text \<open>
  The body of the scan loop of \<open>__balloc_alloc\<close> up to its test: clip the range to the
  window, round the clipped begin up to \<open>align\<close>, and accept when the block ends inside
  the clipped range. All arithmetic is that of \<open>unsigned long long\<close>.
\<close>

definition alloc_fit :: "u64 \<Rightarrow> u64 \<Rightarrow> u64 \<Rightarrow> u64 \<Rightarrow> memory_node \<Rightarrow> u64 option" where
  "alloc_fit sz align from to n =
     (let b = (if m_begin n > from then m_begin n else from);
          e = (if m_end n < to then m_end n else to);
          mask = align - 1;
          addr = (b + mask) AND NOT mask
      in if addr + sz \<le> e then Some addr else None)"

text \<open>
  The scan loop: the tree is not changed while it runs, so following \<open>rb_next\<close> from
  \<open>ptr\<close> visits the rest of the traversal, which is the list argument.
\<close>

fun alloc_scan ::
  "u64 \<Rightarrow> u64 \<Rightarrow> u64 \<Rightarrow> u64 \<Rightarrow> memory_node list \<Rightarrow> (memory_node \<times> u64) option" where
  "alloc_scan sz align from to [] = None"
| "alloc_scan sz align from to (n # ns) =
     (if m_begin n < to then
        (case alloc_fit sz align from to n of
           Some addr \<Rightarrow> Some (n, addr)
         | None \<Rightarrow> alloc_scan sz align from to ns)
      else None)"

text \<open>The nodes that repeated \<open>rb_next\<close> visits from \<open>ptr\<close> on.\<close>

definition walk_from :: "nat option \<Rightarrow> rb_tree \<Rightarrow> memory_node list" where
  "walk_from ptr t =
     (case ptr of None \<Rightarrow> [] | Some i \<Rightarrow> dropWhile (\<lambda>n. node_id n \<noteq> i) t)"

text \<open>
  \<open>__balloc_alloc\<close>. \<open>T\<close> is the tree \<open>free_ranges\<close> in the shape it has at the
  call; the rest of the state is taken from \<open>st\<close>. The descent on \<open>T\<close>, the scan, and
  on success the erasure of the chosen node and the re-insertion of what is left of it on
  either side of the block. The result is the returned address and the new state.
\<close>

definition uu_balloc_alloc ::
  "memory_node tree \<Rightarrow> u64 \<Rightarrow> u64 \<Rightarrow> u64 \<Rightarrow> u64 \<Rightarrow> balloc_state
     \<Rightarrow> (u64 \<times> balloc_state) option" where
  "uu_balloc_alloc T sz align from to st =
     (case alloc_scan sz align from to (walk_from (first_ptr T from) (inorder T)) of
        None \<Rightarrow> Some (to, st)
      | Some (n, addr) \<Rightarrow>
          (case (if m_begin n < addr
                 then uu_balloc_add_range (rb_erase (inorder T) (node_id n))
                        (balloc_free_list st) (m_begin n) addr
                 else Some (rb_erase (inorder T) (node_id n), balloc_free_list st)) of
             None \<Rightarrow> None
           | Some (t2, p2) \<Rightarrow>
               (case (if m_end n > addr + sz
                      then uu_balloc_add_range t2 p2 (addr + sz) (m_end n)
                      else Some (t2, p2)) of
                  None \<Rightarrow> None
                | Some (t3, p3) \<Rightarrow>
                    Some (addr, st\<lparr>free_ranges := t3,
                                    balloc_free_list := balloc_free_node (node_id n) p3\<rparr>))))"

text \<open>\<open>balloc_alloc\<close>: the alignment picked from the size.\<close>

definition balloc_alloc ::
  "memory_node tree \<Rightarrow> u64 \<Rightarrow> u64 \<Rightarrow> u64 \<Rightarrow> balloc_state \<Rightarrow> (u64 \<times> balloc_state) option" where
  "balloc_alloc T sz from to st =
     (let align = 64;
          align = (if sz \<le> 32 then 32 else align);
          align = (if sz \<le> 16 then 16 else align);
          align = (if sz \<le> 8 then 8 else align)
      in uu_balloc_alloc T sz align from to st)"

text \<open>
  The mutators applied to one of the two global trees. A removal takes the tree it works
  on in its current shape, as \<open>__balloc_alloc\<close> does.
\<close>

definition add_known :: "u64 \<Rightarrow> u64 \<Rightarrow> balloc_state \<Rightarrow> balloc_state option" where
  "add_known from to st =
     (case uu_balloc_add_range (memory_map st) (balloc_free_list st) from to of
        None \<Rightarrow> None
      | Some (t, p) \<Rightarrow> Some (st\<lparr>memory_map := t, balloc_free_list := p\<rparr>))"

definition add_free :: "u64 \<Rightarrow> u64 \<Rightarrow> balloc_state \<Rightarrow> balloc_state option" where
  "add_free from to st =
     (case uu_balloc_add_range (free_ranges st) (balloc_free_list st) from to of
        None \<Rightarrow> None
      | Some (t, p) \<Rightarrow> Some (st\<lparr>free_ranges := t, balloc_free_list := p\<rparr>))"

definition remove_known ::
  "memory_node tree \<Rightarrow> u64 \<Rightarrow> u64 \<Rightarrow> balloc_state \<Rightarrow> balloc_state option" where
  "remove_known T from to st =
     (case uu_balloc_remove_range_on T (balloc_free_list st) from to of
        None \<Rightarrow> None
      | Some (t, p) \<Rightarrow> Some (st\<lparr>memory_map := t, balloc_free_list := p\<rparr>))"

definition remove_free ::
  "memory_node tree \<Rightarrow> u64 \<Rightarrow> u64 \<Rightarrow> balloc_state \<Rightarrow> balloc_state option" where
  "remove_free T from to st =
     (case uu_balloc_remove_range_on T (balloc_free_list st) from to of
        None \<Rightarrow> None
      | Some (t, p) \<Rightarrow> Some (st\<lparr>free_ranges := t, balloc_free_list := p\<rparr>))"

text \<open>\<open>balloc_free\<close>.\<close>

definition balloc_free :: "u64 \<Rightarrow> u64 \<Rightarrow> balloc_state \<Rightarrow> balloc_state option" where
  "balloc_free begin_addr end_addr st = add_free begin_addr end_addr st"

subsection \<open>Bootstrap\<close>

text \<open>
  The globals before \<open>balloc_setup\<close> runs: static storage is zeroed, so both trees are
  empty.
\<close>

definition boot_state :: balloc_state where
  "boot_state = \<lparr>memory_map = [], free_ranges = [], balloc_free_list = []\<rparr>"

text \<open>\<open>balloc_setup_nodes\<close>: an empty list, then every slot of the array is pushed.\<close>

definition balloc_setup_nodes :: "balloc_state \<Rightarrow> balloc_state" where
  "balloc_setup_nodes st =
     st\<lparr>balloc_free_list := fold balloc_free_node [0 ..< BALLOC_MAX_RANGES] []\<rparr>"

text \<open>
  One \<open>struct mboot_mmap_entry\<close>. The byte layout of the boot information and the
  stride between entries are not represented: the memory map is the list of the entries
  that the two loops of \<open>balloc_parse_mmap\<close> visit, in that order.
\<close>

record mboot_mmap_entry =
  e_addr :: u64
  e_length :: u64
  e_type :: "32 word"

text \<open>The first loop: every entry goes into both trees.\<close>

fun add_entries :: "mboot_mmap_entry list \<Rightarrow> balloc_state \<Rightarrow> balloc_state option" where
  "add_entries [] st = Some st"
| "add_entries (en # es) st =
     (case add_known (e_addr en) (e_addr en + e_length en) st of
        None \<Rightarrow> None
      | Some st1 \<Rightarrow>
          (case add_free (e_addr en) (e_addr en + e_length en) st1 of
             None \<Rightarrow> None
           | Some st2 \<Rightarrow> add_entries es st2))"

text \<open>
  The second loop: every entry whose type is not 1 is taken out of the free tree. The
  shape that \<open>free_ranges\<close> has at each call is whatever the rebalancing has made of
  it, so the loop is a relation between the state before and the state after: it holds
  for every shape the tree may have at each call.
\<close>

inductive remove_entries :: "mboot_mmap_entry list \<Rightarrow> balloc_state \<Rightarrow> balloc_state \<Rightarrow> bool" where
  entries_done: "remove_entries [] st st"
| entry_removed:
    "e_type en \<noteq> 1 \<Longrightarrow> inorder T = free_ranges st \<Longrightarrow>
     remove_free T (e_addr en) (e_addr en + e_length en) st = Some st1 \<Longrightarrow>
     remove_entries es st1 st' \<Longrightarrow> remove_entries (en # es) st st'"
| entry_kept:
    "e_type en = 1 \<Longrightarrow> remove_entries es st st' \<Longrightarrow> remove_entries (en # es) st st'"

text \<open>
  \<open>balloc_parse_mmap\<close>, from the state \<open>st\<close> to the state \<open>st'\<close> in which it
  returns. \<open>flags\<close> is \<open>info->flags\<close>; \<open>kbegin\<close> and \<open>kend\<close> are the link-time
  addresses \<open>text_phys_begin\<close> and \<open>bss_phys_end\<close>; \<open>init_module\<close> is what
  \<open>initramfs(info)\<close> returns (that function is not part of the sources). A run that
  \<open>BUG_ON\<close> halts has no final state.
\<close>

inductive balloc_parse_mmap ::
  "32 word \<Rightarrow> mboot_mmap_entry list \<Rightarrow> u64 \<Rightarrow> u64 \<Rightarrow> u64 \<times> u64 \<Rightarrow> balloc_state
     \<Rightarrow> balloc_state \<Rightarrow> bool" where
  parse_mmap:
    "flags AND push_bit 6 1 \<noteq> 0 \<Longrightarrow>
     add_entries entries st = Some st1 \<Longrightarrow>
     add_known kbegin kend st1 = Some st2 \<Longrightarrow>
     add_free kbegin kend st2 = Some st3 \<Longrightarrow>
     remove_entries entries st3 st4 \<Longrightarrow>
     inorder T5 = free_ranges st4 \<Longrightarrow>
     remove_free T5 (fst init_module) (snd init_module) st4 = Some st5 \<Longrightarrow>
     inorder T6 = free_ranges st5 \<Longrightarrow>
     remove_free T6 kbegin kend st5 = Some st' \<Longrightarrow>
     balloc_parse_mmap flags entries kbegin kend init_module st st'"

text \<open>\<open>balloc_setup\<close>, without the diagnostic dump: the state in which it returns.\<close>

definition balloc_setup ::
  "32 word \<Rightarrow> mboot_mmap_entry list \<Rightarrow> u64 \<Rightarrow> u64 \<Rightarrow> u64 \<times> u64 \<Rightarrow> balloc_state \<Rightarrow> bool" where
  "balloc_setup flags entries kbegin kend init_module st' \<longleftrightarrow>
     balloc_parse_mmap flags entries kbegin kend init_module (balloc_setup_nodes boot_state) st'"

subsection \<open>Sequences of operations\<close>

datatype range_op = Add_range u64 u64 | Remove_range u64 u64

fun apply_op :: "range_op \<Rightarrow> rb_tree \<times> free_list \<Rightarrow> (rb_tree \<times> free_list) option" where
  "apply_op (Add_range from to) (t, p) = uu_balloc_add_range t p from to"
| "apply_op (Remove_range from to) (t, p) = uu_balloc_remove_range t p from to"

fun run_ops :: "range_op list \<Rightarrow> rb_tree \<times> free_list \<Rightarrow> (rb_tree \<times> free_list) option" where
  "run_ops [] s = Some s"
| "run_ops (x # xs) s = (case apply_op x s of None \<Rightarrow> None | Some s' \<Rightarrow> run_ops xs s')"

text \<open>The preconditions the operations are specified under.\<close>

fun op_ok :: "range_op \<Rightarrow> bool" where
  "op_ok (Add_range from to) \<longleftrightarrow> from < to"
| "op_ok (Remove_range from to) \<longleftrightarrow> from \<le> to"

text \<open>
  The states the allocator can be in at an operation boundary: the state after
  \<open>balloc_setup_nodes\<close>, and every state a completed operation leaves, whatever the
  arguments of the operation are and whatever shape the tree it searches has.
\<close>

inductive reachable :: "balloc_state \<Rightarrow> bool" where
  at_init: "reachable (balloc_setup_nodes boot_state)"
| at_setup: "balloc_setup flags entries kbegin kend init_module st \<Longrightarrow> reachable st"
| at_add_known: "reachable st \<Longrightarrow> add_known from to st = Some st' \<Longrightarrow> reachable st'"
| at_add_free: "reachable st \<Longrightarrow> add_free from to st = Some st' \<Longrightarrow> reachable st'"
| at_remove_known:
    "reachable st \<Longrightarrow> inorder T = memory_map st \<Longrightarrow>
     remove_known T from to st = Some st' \<Longrightarrow> reachable st'"
| at_remove_free:
    "reachable st \<Longrightarrow> inorder T = free_ranges st \<Longrightarrow>
     remove_free T from to st = Some st' \<Longrightarrow> reachable st'"
| at_alloc_aligned:
    "reachable st \<Longrightarrow> inorder T = free_ranges st \<Longrightarrow>
     uu_balloc_alloc T sz align from to st = Some (a, st') \<Longrightarrow> reachable st'"
| at_alloc:
    "reachable st \<Longrightarrow> inorder T = free_ranges st \<Longrightarrow>
     balloc_alloc T sz from to st = Some (a, st') \<Longrightarrow> reachable st'"
| at_free: "reachable st \<Longrightarrow> balloc_free from to st = Some st' \<Longrightarrow> reachable st'"

subsection \<open>Specification-level notions\<close>

text \<open>The pointer to the first node of a traversal suffix, null when there is none.\<close>

definition ptr_of :: "memory_node list \<Rightarrow> nat option" where
  "ptr_of R = (case R of [] \<Rightarrow> None | n # _ \<Rightarrow> Some (node_id n))"

text \<open>
  What is left of one range \<open>r\<close> when \<open>[from, to)\<close> is taken out of it: the range
  itself when the two do not overlap, otherwise the part below \<open>from\<close> and the part
  from \<open>to\<close> on, each when it is not empty.
\<close>

definition carve :: "u64 \<Rightarrow> u64 \<Rightarrow> u64 \<times> u64 \<Rightarrow> (u64 \<times> u64) list" where
  "carve from to r =
     (if from < to \<and> fst r < to \<and> from < snd r
      then (if fst r < from then [(fst r, from)] else []) @
           (if to < snd r then [(to, snd r)] else [])
      else [r])"

text \<open>
  The number of calls of \<open>__balloc_add_range\<close> that one iteration of the removal loop
  makes for the node \<open>n\<close> before it returns the node's own slot, and that number for
  the first node the loop visits.
\<close>

definition node_needs :: "u64 \<Rightarrow> u64 \<Rightarrow> memory_node \<Rightarrow> nat" where
  "node_needs from to n =
     (if m_begin n < to
      then (if m_begin n < from then 1 else 0) + (if to < m_end n then 1 else 0)
      else 0)"

definition slots_needed :: "rb_tree \<Rightarrow> u64 \<Rightarrow> u64 \<Rightarrow> nat" where
  "slots_needed t from to =
     (case first_above t from of None \<Rightarrow> 0 | Some n \<Rightarrow> node_needs from to n)"

text \<open>
  An address that could satisfy an allocation request on the free set \<open>t\<close>: a multiple
  of \<open>align\<close> inside the window whose block of \<open>sz\<close> bytes ends inside the window
  and is covered by \<open>t\<close>. The sums are those of the natural numbers.
\<close>

definition feasible :: "rb_tree \<Rightarrow> u64 \<Rightarrow> u64 \<Rightarrow> u64 \<Rightarrow> u64 \<Rightarrow> u64 \<Rightarrow> bool" where
  "feasible t sz align from to a \<longleftrightarrow>
     unat align dvd unat a \<and> from \<le> a \<and> unat a + unat sz \<le> unat to
       \<and> {a ..< a + sz} \<subseteq> covered t"

text \<open>
  The requests for which no sum of \<open>__balloc_alloc\<close> wraps around on the free set
  \<open>t\<close>: for every stored range the scan can visit (its \<open>end\<close> is above \<open>from\<close> and
  its \<open>begin\<close> below \<open>to\<close>), the two sums the loop forms, \<open>b + mask\<close> and
  \<open>addr + size\<close>, stay below \<open>2 ^ 64\<close>. Nothing is asked of \<open>to\<close> itself.
\<close>

definition no_wrap :: "rb_tree \<Rightarrow> u64 \<Rightarrow> u64 \<Rightarrow> u64 \<Rightarrow> u64 \<Rightarrow> bool" where
  "no_wrap t sz align from to \<longleftrightarrow>
     list_all (\<lambda>n. from < m_end n \<and> m_begin n < to \<longrightarrow>
                  unat (max (m_begin n) from) + unat (align - 1) < 2 ^ 64
                  \<and> unat ((max (m_begin n) from + (align - 1)) AND NOT (align - 1)) + unat sz
                      < 2 ^ 64) t"

text \<open>The accounting of the pool: every slot of the array is in exactly one place.\<close>

definition pool_inv :: "balloc_state \<Rightarrow> bool" where
  "pool_inv st \<longleftrightarrow>
     mset (map node_id (memory_map st)) + mset (map node_id (free_ranges st))
       + mset (balloc_free_list st) = mset [0 ..< BALLOC_MAX_RANGES]"

text \<open>Both trees of a state are ordered by \<open>begin\<close>.\<close>

definition begin_ordered :: "balloc_state \<Rightarrow> bool" where
  "begin_ordered st \<longleftrightarrow>
     sorted_wrt (\<lambda>a b. m_begin a \<le> m_begin b) (memory_map st)
     \<and> sorted_wrt (\<lambda>a b. m_begin a \<le> m_begin b) (free_ranges st)"

text \<open>
  A traversal is separated when it is ordered by \<open>begin\<close> and every node ends below the
  begin of its successor; a state is well linked when both of its trees are.
\<close>

definition separated :: "rb_tree \<Rightarrow> bool" where
  "separated t \<longleftrightarrow>
     sorted_wrt (\<lambda>a b. m_begin a \<le> m_begin b) t
     \<and> successively (\<lambda>a b. m_end a < m_begin b) t"

definition well_linked :: "balloc_state \<Rightarrow> bool" where
  "well_linked st \<longleftrightarrow> separated (memory_map st) \<and> separated (free_ranges st)"

section \<open>Properties\<close>

subsection \<open>The descents are binary searches\<close>

lemma takeWhile_stop: "\<not> P n \<Longrightarrow> takeWhile P (xs @ n # ys) = takeWhile P xs"
  by (induction xs) auto

lemma takeWhile_pass:
  "\<forall>a\<in>set xs. P a \<Longrightarrow> P n \<Longrightarrow> takeWhile P (xs @ n # ys) = xs @ n # takeWhile P ys"
  by (induction xs) auto

lemma find_append_first:
  "find P (xs @ ys) = (case find P xs of None \<Rightarrow> find P ys | Some x \<Rightarrow> Some x)"
  by (induction xs) auto

text \<open>
  On a binary tree of any shape whose traversal is ordered by \<open>begin\<close>, the first loop
  of \<open>__balloc_add_range\<close> stops at the link behind the nodes with \<open>begin < from\<close>.
\<close>

lemma link_descent_position:
  "sorted_wrt (\<lambda>a b. m_begin a \<le> m_begin b) (inorder T) \<Longrightarrow>
     link_descent T from = length (takeWhile (\<lambda>n. m_begin n < from) (inorder T))"
proof (induction T)
  case Leaf
  then show ?case by simp
next
  case (Node l n r)
  from Node.prems have sl: "sorted_wrt (\<lambda>a b. m_begin a \<le> m_begin b) (inorder l)"
    and sr: "sorted_wrt (\<lambda>a b. m_begin a \<le> m_begin b) (inorder r)"
    and ln: "\<forall>a\<in>set (inorder l). m_begin a \<le> m_begin n"
    by (auto simp: sorted_wrt_append)
  show ?case
  proof (cases "m_begin n < from")
    case True
    then have "\<forall>a\<in>set (inorder l). m_begin a < from" using ln by auto
    then have "takeWhile (\<lambda>n. m_begin n < from) (inorder l @ n # inorder r)
        = inorder l @ n # takeWhile (\<lambda>n. m_begin n < from) (inorder r)"
      using True by (rule takeWhile_pass)
    then show ?thesis using True Node.IH(2) [OF sr] by simp
  next
    case False
    then show ?thesis using Node.IH(1) [OF sl] by (simp add: takeWhile_stop)
  qed
qed

text \<open>
  On such a tree \<open>rb_link\<close> hangs the new node behind the nodes with
  \<open>begin < from\<close> and in front of the others, which is where the model of
  \<open>__balloc_add_range\<close> puts it.
\<close>

lemma dropWhile_stop: "\<not> P n \<Longrightarrow> dropWhile P (xs @ n # ys) = dropWhile P xs @ n # ys"
  by (induction xs) auto

lemma dropWhile_pass:
  "\<forall>a\<in>set xs. P a \<Longrightarrow> P n \<Longrightarrow> dropWhile P (xs @ n # ys) = dropWhile P ys"
  by (induction xs) auto

lemma rb_link_at_inorder:
  "sorted_wrt (\<lambda>a b. m_begin a \<le> m_begin b) (inorder T) \<Longrightarrow>
     inorder (rb_link_at T new)
       = takeWhile (\<lambda>n. m_begin n < m_begin new) (inorder T) @ new
           # dropWhile (\<lambda>n. m_begin n < m_begin new) (inorder T)"
proof (induction T)
  case Leaf
  then show ?case by simp
next
  case (Node l n r)
  from Node.prems have sl: "sorted_wrt (\<lambda>a b. m_begin a \<le> m_begin b) (inorder l)"
    and sr: "sorted_wrt (\<lambda>a b. m_begin a \<le> m_begin b) (inorder r)"
    and ln: "\<forall>a\<in>set (inorder l). m_begin a \<le> m_begin n"
    by (auto simp: sorted_wrt_append)
  show ?case
  proof (cases "m_begin n < m_begin new")
    case True
    then have all: "\<forall>a\<in>set (inorder l). m_begin a < m_begin new" using ln by auto
    have "takeWhile (\<lambda>n. m_begin n < m_begin new) (inorder l @ n # inorder r)
        = inorder l @ n # takeWhile (\<lambda>n. m_begin n < m_begin new) (inorder r)"
      using all True by (rule takeWhile_pass)
    moreover have "dropWhile (\<lambda>n. m_begin n < m_begin new) (inorder l @ n # inorder r)
        = dropWhile (\<lambda>n. m_begin n < m_begin new) (inorder r)"
      using all True by (rule dropWhile_pass)
    ultimately show ?thesis using True Node.IH(2) [OF sr] by simp
  next
    case False
    then show ?thesis
      using Node.IH(1) [OF sl] by (simp add: takeWhile_stop dropWhile_stop)
  qed
qed

text \<open>
  On a binary tree of any shape whose traversal is ordered by \<open>end\<close>, the first loop of
  \<open>__balloc_remove_range\<close> and \<open>__balloc_alloc\<close> ends with \<open>ptr\<close> at the first node
  of the traversal with \<open>end > from\<close>, or unchanged when there is none.
\<close>

lemma first_descent_first_above:
  "sorted_wrt (\<lambda>a b. m_end a \<le> m_end b) (inorder T) \<Longrightarrow>
     first_descent T from ptr
       = (case first_above (inorder T) from of None \<Rightarrow> ptr | Some n \<Rightarrow> Some n)"
proof (induction T arbitrary: ptr)
  case Leaf
  then show ?case by (simp add: first_above_def)
next
  case (Node l n r)
  from Node.prems have sl: "sorted_wrt (\<lambda>a b. m_end a \<le> m_end b) (inorder l)"
    and sr: "sorted_wrt (\<lambda>a b. m_end a \<le> m_end b) (inorder r)"
    and ln: "\<forall>a\<in>set (inorder l). m_end a \<le> m_end n"
    by (auto simp: sorted_wrt_append)
  show ?case
  proof (cases "from < m_end n")
    case True
    then show ?thesis
      using Node.IH(1) [OF sl, of "Some n"]
      by (simp add: first_above_def find_append_first split: option.splits)
  next
    case False
    then have "\<forall>a\<in>set (inorder l). \<not> from < m_end a" using ln by auto
    then have "find (\<lambda>n. from < m_end n) (inorder l) = None" by (simp add: find_None_iff)
    then show ?thesis
      using False Node.IH(2) [OF sr, of ptr]
      by (simp add: first_above_def find_append_first)
  qed
qed

text \<open>
  Both orders hold under the invariant of an interval set, also when stored ranges may be
  empty.
\<close>

lemma weak_inv_orders:
  assumes "weak_inv t"
  shows "sorted_wrt (\<lambda>a b. m_begin a \<le> m_begin b) t"
    and "sorted_wrt (\<lambda>a b. m_end a \<le> m_end b) t"
proof -
  have ne: "\<forall>n\<in>set t. m_begin n \<le> m_end n"
    and s: "sorted_wrt (\<lambda>a b. m_end a < m_begin b) t"
    using assms by (simp_all add: weak_inv_def list_all_iff)
  show "sorted_wrt (\<lambda>a b. m_begin a \<le> m_begin b) t"
    using s ne by (induction t) fastforce+
  show "sorted_wrt (\<lambda>a b. m_end a \<le> m_end b) t"
    using s ne by (induction t) fastforce+
qed

lemma interval_inv_orders:
  assumes "interval_inv t"
  shows "sorted_wrt (\<lambda>a b. m_begin a \<le> m_begin b) t"
    and "sorted_wrt (\<lambda>a b. m_end a \<le> m_end b) t"
proof -
  have "weak_inv t"
    using assms by (auto simp: interval_inv_def weak_inv_def list_all_iff)
  then show "sorted_wrt (\<lambda>a b. m_begin a \<le> m_begin b) t"
    and "sorted_wrt (\<lambda>a b. m_end a \<le> m_end b) t"
    by (rule weak_inv_orders)+
qed

text \<open>
  So on a tree that satisfies the invariant, in any shape, \<open>__balloc_remove_range\<close> is
  the function on the traversal, and the scan of \<open>__balloc_alloc\<close> visits the nodes
  from the first one with \<open>end > from\<close> on.
\<close>

lemma first_ptr_ordered:
  assumes "weak_inv (inorder T)"
  shows "first_ptr T from = map_option node_id (first_above (inorder T) from)"
  using first_descent_first_above [OF weak_inv_orders(2) [OF assms], of "from" None]
  by (simp add: first_ptr_def split: option.splits)

lemma remove_range_on_ordered:
  "weak_inv (inorder T) \<Longrightarrow>
     uu_balloc_remove_range_on T p from to = uu_balloc_remove_range (inorder T) p from to"
  by (simp add: uu_balloc_remove_range_on_def uu_balloc_remove_range_def first_ptr_ordered)

lemma walk_from_find:
  "distinct (map node_id t) \<Longrightarrow>
     walk_from (map_option node_id (find P t)) t = dropWhile (\<lambda>n. \<not> P n) t"
proof (induction t)
  case Nil
  then show ?case by (simp add: walk_from_def)
next
  case (Cons x t)
  show ?case
  proof (cases "P x")
    case True
    then show ?thesis by (simp add: walk_from_def)
  next
    case False
    show ?thesis
    proof (cases "find P t")
      case None
      then have "\<forall>n\<in>set t. \<not> P n" by (simp add: find_None_iff)
      then have dw: "dropWhile (\<lambda>n. \<not> P n) t = []" by simp
      show ?thesis
        using False None by (simp add: walk_from_def dw del: dropWhile_eq_Nil_conv)
    next
      case (Some m)
      then have "m \<in> set t" by (auto simp: find_Some_iff in_set_conv_nth)
      then have "node_id x \<noteq> node_id m" using Cons.prems by auto
      then show ?thesis
        using False Some Cons.IH Cons.prems by (simp add: walk_from_def)
    qed
  qed
qed

lemma walk_from_ordered:
  assumes "weak_inv (inorder T)" "distinct (map node_id (inorder T))"
  shows "walk_from (first_ptr T from) (inorder T)
       = dropWhile (\<lambda>n. \<not> from < m_end n) (inorder T)"
  using walk_from_find [OF assms(2), of "\<lambda>n. from < m_end n"]
  by (simp add: first_ptr_ordered [OF assms(1)] first_above_def)

text \<open>
  The order by \<open>begin\<close> does not depend on the invariant: \<open>__balloc_add_range\<close> keeps it
  on any tree, whatever \<open>from\<close> and \<open>to\<close> are.
\<close>

lemma absorb_begin_order:
  assumes s: "sorted_wrt (\<lambda>a b. m_begin a \<le> m_begin b) (L @ R)"
    and L: "\<forall>n\<in>set L. m_begin n < from" and R: "\<forall>n\<in>set R. \<not> m_begin n < from"
    and a: "absorb_prev L \<lparr>node_id = i, m_begin = from, m_end = to\<rparr> p1 = (L1, new1, p2)"
    and b: "absorb_next R new1 p2 = (R1, new2, p3)"
  shows "sorted_wrt (\<lambda>a b. m_begin a \<le> m_begin b) (L1 @ new2 # R1)"
proof -
  have 1: "sorted_wrt (\<lambda>a b. m_begin a \<le> m_begin b) L1
      \<and> (\<forall>a\<in>set L1. m_begin a \<le> m_begin new1)
      \<and> (\<forall>a\<in>set L1. \<forall>b\<in>set R. m_begin a \<le> m_begin b)
      \<and> m_begin new1 \<le> from"
    using s L a
    by (cases L rule: rev_cases)
       (fastforce simp: absorb_prev_def sorted_wrt_append split: if_splits)+
  have 2: "sorted_wrt (\<lambda>a b. m_begin a \<le> m_begin b) R1
      \<and> set R1 \<subseteq> set R \<and> m_begin new2 = m_begin new1"
    using s b
    by (cases R) (auto simp: absorb_next_def sorted_wrt_append split: if_splits)
  have 3: "\<forall>b\<in>set R1. m_begin new2 \<le> m_begin b"
  proof
    fix b assume "b \<in> set R1"
    then have "\<not> m_begin b < from" using 2 R by auto
    then show "m_begin new2 \<le> m_begin b" using 1 2 by auto
  qed
  show ?thesis using 1 2 3 by (fastforce simp: sorted_wrt_append)
qed

lemma add_range_begin_order:
  assumes "uu_balloc_add_range t p from to = Some (t', p')"
    and "sorted_wrt (\<lambda>a b. m_begin a \<le> m_begin b) t"
  shows "sorted_wrt (\<lambda>a b. m_begin a \<le> m_begin b) t'"
proof -
  let ?P = "\<lambda>n. m_begin n < from"
  let ?L = "takeWhile ?P t" and ?R = "dropWhile ?P t"
  have s: "sorted_wrt (\<lambda>a b. m_begin a \<le> m_begin b) (?L @ ?R)" using assms(2) by simp
  have L: "\<forall>n\<in>set ?L. m_begin n < from" by (auto dest: set_takeWhileD)
  have R: "\<forall>n\<in>set ?R. \<not> m_begin n < from"
  proof (cases ?R)
    case Nil then show ?thesis by (simp del: dropWhile_eq_Nil_conv)
  next
    case (Cons r rs)
    have "\<not> m_begin r < from" using hd_dropWhile [of ?P t] Cons by auto
    moreover have "\<forall>b\<in>set rs. m_begin r \<le> m_begin b"
      using s unfolding Cons by (simp add: sorted_wrt_append)
    ultimately show ?thesis using Cons by fastforce
  qed
  from assms(1) obtain i p1 L1 new1 p2 R1 new2 where
    a: "absorb_prev ?L \<lparr>node_id = i, m_begin = from, m_end = to\<rparr> p1 = (L1, new1, p2)" and
    b: "absorb_next ?R new1 p2 = (R1, new2, p')" and t': "t' = L1 @ new2 # R1"
    unfolding uu_balloc_add_range_def
    by (cases p) (auto split: prod.splits)
  show ?thesis unfolding t' by (rule absorb_begin_order [OF s L R a b])
qed

subsection \<open>Insertion\<close>

lemma interval_inv_append:
  "interval_inv (L @ R) \<longleftrightarrow>
     interval_inv L \<and> interval_inv R \<and> (\<forall>a\<in>set L. \<forall>b\<in>set R. m_end a < m_begin b)"
  by (auto simp: interval_inv_def sorted_wrt_append)

lemma interval_inv_Cons:
  "interval_inv (n # R) \<longleftrightarrow>
     m_begin n < m_end n \<and> interval_inv R \<and> (\<forall>b\<in>set R. m_end n < m_begin b)"
  by (auto simp: interval_inv_def)

lemma interval_inv_Nil [simp]: "interval_inv []"
  by (simp add: interval_inv_def)

lemma interval_inv_begin_less:
  "interval_inv t \<Longrightarrow> n \<in> set t \<Longrightarrow> m_begin n < m_end n"
  by (simp add: interval_inv_def list_all_iff)

lemma weak_inv_append:
  "weak_inv (L @ R) \<longleftrightarrow>
     weak_inv L \<and> weak_inv R \<and> (\<forall>a\<in>set L. \<forall>b\<in>set R. m_end a < m_begin b)"
  by (auto simp: weak_inv_def sorted_wrt_append)

lemma weak_inv_Cons:
  "weak_inv (n # R) \<longleftrightarrow>
     m_begin n \<le> m_end n \<and> weak_inv R \<and> (\<forall>b\<in>set R. m_end n < m_begin b)"
  by (auto simp: weak_inv_def)

lemma weak_inv_Nil [simp]: "weak_inv []"
  by (simp add: weak_inv_def)

lemma weak_inv_begin_le:
  "weak_inv t \<Longrightarrow> n \<in> set t \<Longrightarrow> m_begin n \<le> m_end n"
  by (simp add: weak_inv_def list_all_iff)

lemma interval_inv_weak: "interval_inv t \<Longrightarrow> weak_inv t"
  by (auto simp: interval_inv_def weak_inv_def list_all_iff)

lemma interval_inv_iff_weak:
  "interval_inv t \<longleftrightarrow> weak_inv t \<and> (\<forall>r\<in>set (ranges t). fst r < snd r)"
  by (auto simp: interval_inv_def weak_inv_def list_all_iff ranges_def)

lemma link_split:
  assumes "\<forall>n\<in>set L. m_begin n < from" "\<forall>n\<in>set R. \<not> m_begin n < from"
  shows "takeWhile (\<lambda>n. m_begin n < from) (L @ R) = L"
    and "dropWhile (\<lambda>n. m_begin n < from) (L @ R) = R"
  using assms by (cases R; simp)+

text \<open>Under the invariant the link position splits the tree by \<open>begin\<close>.\<close>

lemma link_position:
  assumes "weak_inv t"
  obtains L R where "t = L @ R" "takeWhile (\<lambda>n. m_begin n < from) t = L"
    "dropWhile (\<lambda>n. m_begin n < from) t = R"
    "\<forall>n\<in>set L. m_begin n < from" "\<forall>n\<in>set R. \<not> m_begin n < from"
proof -
  let ?P = "\<lambda>n. m_begin n < from"
  let ?L = "takeWhile ?P t" and ?R = "dropWhile ?P t"
  have t: "t = ?L @ ?R" by simp
  have L: "\<forall>n\<in>set ?L. m_begin n < from" by (auto dest: set_takeWhileD)
  have R: "\<forall>n\<in>set ?R. \<not> m_begin n < from"
  proof (cases ?R)
    case Nil then show ?thesis by (simp del: dropWhile_eq_Nil_conv)
  next
    case (Cons r rs)
    have hd: "\<not> m_begin r < from" using hd_dropWhile [of ?P t] Cons by auto
    have "weak_inv (r # rs)" using assms t Cons weak_inv_append [of ?L ?R] by simp
    then have "\<forall>b\<in>set rs. m_begin r < m_begin b"
      by (fastforce simp: weak_inv_Cons)
    with hd show ?thesis using Cons by auto
  qed
  from t L R that show thesis by blast
qed

lemma absorb_inv:
  assumes inv: "interval_inv (L @ R)"
    and L: "\<forall>n\<in>set L. m_begin n < from" and R: "\<forall>n\<in>set R. \<not> m_begin n < from"
    and lt: "from < to"
    and p: "absorb_prev L \<lparr>node_id = i, m_begin = from, m_end = to\<rparr> p1 = (L1, new1, p2)"
    and n: "absorb_next R new1 p2 = (R1, new2, p3)"
  shows "interval_inv (L1 @ new2 # R1)"
proof -
  have 1: "interval_inv L1 \<and> (\<forall>a\<in>set L1. m_end a < m_begin new1) \<and> (\<forall>a\<in>set L1. \<forall>b\<in>set R. m_end a < m_begin b)
        \<and> m_begin new1 < m_end new1 \<and> m_begin new1 \<le> from
        \<and> (\<forall>b\<in>set R. m_end new1 < m_begin b \<or> m_begin b \<le> to)"
    using inv L lt p
    by (cases L rule: rev_cases)
       (fastforce simp: absorb_prev_def interval_inv_append interval_inv_Cons not_le split: if_splits)+
  show ?thesis
    using inv R lt n 1
    by (cases R)
       (fastforce simp: absorb_next_def interval_inv_append interval_inv_Cons not_le not_less split: if_splits)+
qed

lemma absorb_weak:
  assumes inv: "weak_inv (L @ R)"
    and L: "\<forall>n\<in>set L. m_begin n < from" and R: "\<forall>n\<in>set R. \<not> m_begin n < from"
    and le: "from \<le> to"
    and p: "absorb_prev L \<lparr>node_id = i, m_begin = from, m_end = to\<rparr> p1 = (L1, new1, p2)"
    and n: "absorb_next R new1 p2 = (R1, new2, p3)"
  shows "weak_inv (L1 @ new2 # R1)"
proof -
  have 1: "weak_inv L1 \<and> (\<forall>a\<in>set L1. m_end a < m_begin new1) \<and> (\<forall>a\<in>set L1. \<forall>b\<in>set R. m_end a < m_begin b)
        \<and> m_begin new1 \<le> m_end new1 \<and> m_begin new1 \<le> from
        \<and> (\<forall>b\<in>set R. m_end new1 < m_begin b \<or> m_begin b \<le> to)"
    using inv L le p
    by (cases L rule: rev_cases)
       (fastforce simp: absorb_prev_def weak_inv_append weak_inv_Cons not_le split: if_splits)+
  show ?thesis
    using inv R le n 1
    by (cases R)
       (fastforce simp: absorb_next_def weak_inv_append weak_inv_Cons not_le not_less split: if_splits)+
qed

text \<open>Inserting a range that may be empty keeps the weaker invariant.\<close>

lemma add_range_weak:
  assumes "weak_inv t" "from \<le> to" "uu_balloc_add_range t p from to = Some (t', p')"
  shows "weak_inv t'"
proof -
  obtain L R where t: "t = L @ R" "takeWhile (\<lambda>n. m_begin n < from) t = L"
    "dropWhile (\<lambda>n. m_begin n < from) t = R"
    "\<forall>n\<in>set L. m_begin n < from" "\<forall>n\<in>set R. \<not> m_begin n < from"
    by (rule link_position [OF assms(1)])
  from assms(3) obtain i p1 L1 new1 p2 R1 new2 where
    "absorb_prev L \<lparr>node_id = i, m_begin = from, m_end = to\<rparr> p1 = (L1, new1, p2)"
    "absorb_next R new1 p2 = (R1, new2, p')" "t' = L1 @ new2 # R1"
    unfolding uu_balloc_add_range_def t(2,3)
    by (cases p) (auto split: prod.splits)
  with absorb_weak [OF _ t(4,5) assms(2)] assms(1) t(1) show ?thesis by blast
qed

lemma add_range_inv:
  assumes "interval_inv t" "from < to" "uu_balloc_add_range t p from to = Some (t', p')"
  shows "interval_inv t'"
proof -
  obtain L R where t: "t = L @ R" "takeWhile (\<lambda>n. m_begin n < from) t = L"
    "dropWhile (\<lambda>n. m_begin n < from) t = R"
    "\<forall>n\<in>set L. m_begin n < from" "\<forall>n\<in>set R. \<not> m_begin n < from"
    by (rule link_position [OF interval_inv_weak [OF assms(1)]])
  from assms(3) obtain i p1 L1 new1 p2 R1 new2 where
    "absorb_prev L \<lparr>node_id = i, m_begin = from, m_end = to\<rparr> p1 = (L1, new1, p2)"
    "absorb_next R new1 p2 = (R1, new2, p')" "t' = L1 @ new2 # R1"
    unfolding uu_balloc_add_range_def t(2,3)
    by (cases p) (auto split: prod.splits)
  with absorb_inv [OF _ t(4,5) assms(2)] assms(1) t(1) show ?thesis by blast
qed

text \<open>Slots are conserved by an insertion.\<close>

lemma absorb_prev_mset:
  "absorb_prev L new p = (L1, new1, p2) \<Longrightarrow>
     node_id new1 = node_id new \<and> mset (map node_id L1) + mset p2 = mset (map node_id L) + mset p"
  by (cases L rule: rev_cases) (auto simp: absorb_prev_def balloc_free_node_def split: if_splits)

lemma absorb_next_mset:
  "absorb_next R new p = (R1, new1, p2) \<Longrightarrow>
     node_id new1 = node_id new \<and> mset (map node_id R1) + mset p2 = mset (map node_id R) + mset p"
  by (cases R) (auto simp: absorb_next_def balloc_free_node_def split: if_splits)

lemma add_range_mset:
  assumes "uu_balloc_add_range t p from to = Some (t', p')"
  shows "mset (map node_id t') + mset p' = mset (map node_id t) + mset p"
proof -
  let ?P = "\<lambda>n. m_begin n < from"
  let ?L = "takeWhile ?P t" and ?R = "dropWhile ?P t"
  have "map node_id t = map node_id ?L @ map node_id ?R"
    by (simp flip: map_append)
  then have t: "mset (map node_id t) = mset (map node_id ?L) + mset (map node_id ?R)"
    by (metis mset_append)
  from assms obtain i p1 L1 new1 p2 R1 new2 where p: "p = i # p1" and
    a: "absorb_prev ?L \<lparr>node_id = i, m_begin = from, m_end = to\<rparr> p1 = (L1, new1, p2)" and
    b: "absorb_next ?R new1 p2 = (R1, new2, p')" and t': "t' = L1 @ new2 # R1"
    unfolding uu_balloc_add_range_def
    by (cases p) (auto split: prod.splits)
  from absorb_prev_mset [OF a] absorb_next_mset [OF b]
  have "node_id new2 = i"
    and "mset (map node_id L1) + mset p2 = mset (map node_id ?L) + mset p1"
    and "mset (map node_id R1) + mset p' = mset (map node_id ?R) + mset p2"
    by simp_all
  then show ?thesis
    unfolding t t' p
    by (simp add: ac_simps) (metis (no_types, lifting) add.assoc add.commute)
qed

text \<open>The insertion, once the place of the link is known.\<close>

lemma add_range_split:
  assumes "\<forall>n\<in>set L. m_begin n < from" "\<forall>n\<in>set R. \<not> m_begin n < from"
  shows "uu_balloc_add_range (L @ R) (i # p) from to =
     (case absorb_prev L \<lparr>node_id = i, m_begin = from, m_end = to\<rparr> p of
        (L1, new1, p2) \<Rightarrow>
          (case absorb_next R new1 p2 of
             (R1, new2, p3) \<Rightarrow> Some (L1 @ new2 # R1, p3)))"
  by (simp add: uu_balloc_add_range_def link_split [OF assms])

text \<open>A range that touches no stored range is inserted as it is.\<close>

lemma add_range_apart:
  assumes "\<forall>n\<in>set L. m_begin n < from \<and> m_end n < from"
    and "\<forall>n\<in>set R. to < m_begin n" and "from \<le> to"
  shows "uu_balloc_add_range (L @ R) (i # p) from to
           = Some (L @ \<lparr>node_id = i, m_begin = from, m_end = to\<rparr> # R, p)"
proof -
  have R: "\<forall>n\<in>set R. \<not> m_begin n < from" using assms(2,3) by auto
  have L: "\<forall>n\<in>set L. m_begin n < from" using assms(1) by auto
  have p: "absorb_prev L \<lparr>node_id = i, m_begin = from, m_end = to\<rparr> p
             = (L, \<lparr>node_id = i, m_begin = from, m_end = to\<rparr>, p)"
    using assms(1) by (cases L rule: rev_cases) (auto simp: absorb_prev_def)
  have n: "absorb_next R \<lparr>node_id = i, m_begin = from, m_end = to\<rparr> p
             = (R, \<lparr>node_id = i, m_begin = from, m_end = to\<rparr>, p)"
    using assms(2) by (cases R) (auto simp: absorb_next_def)
  show ?thesis
    by (simp add: add_range_split [OF L R] p n)
qed

lemma add_range_no_slot [simp]: "uu_balloc_add_range t [] from to = None"
  by (simp add: uu_balloc_add_range_def)

text \<open>
  C1 (the covered addresses after \<open>add_range\<close> are the union of the old ones and
  \<open>[from, to)\<close>): the code does not do this when the in-order successor ends below
  \<open>to\<close>. Inserting \<open>[0, 100)\<close> into the set \<open>{[10, 20)}\<close> absorbs the successor and
  takes over its end, so the result is \<open>{[0, 20)}\<close> and the address 50 of the
  inserted range is not covered.
\<close>

theorem add_range_drops_tail:
  "interval_inv [\<lparr>node_id = 0, m_begin = 10, m_end = 20\<rparr>] \<and>
   uu_balloc_add_range [\<lparr>node_id = 0, m_begin = 10, m_end = 20\<rparr>] [1, 2] 0 100
     = Some ([\<lparr>node_id = 1, m_begin = 0, m_end = 20\<rparr>], [0, 2]) \<and>
   50 \<in> {0 ..< 100 :: u64} \<and>
   50 \<notin> covered [\<lparr>node_id = 1, m_begin = 0, m_end = 20\<rparr>]"
  by (simp add: uu_balloc_add_range_def absorb_prev_def absorb_next_def balloc_free_node_def
        interval_inv_def covered_def)

subsection \<open>Removal\<close>

text \<open>Pointers into a tree with distinct slots.\<close>

lemma node_of_mid:
  "distinct (map node_id (L @ n # R)) \<Longrightarrow> node_of (L @ n # R) (node_id n) = Some n"
  by (induction L) (auto simp: node_of_def)

lemma rb_next_mid:
  "distinct (map node_id (L @ n # R)) \<Longrightarrow> rb_next (L @ n # R) (node_id n) = ptr_of R"
proof -
  assume "distinct (map node_id (L @ n # R))"
  then have "dropWhile (\<lambda>m. node_id m \<noteq> node_id n) (L @ n # R) = n # R"
    by (induction L) auto
  then show ?thesis by (simp add: rb_next_def ptr_of_def split: list.splits)
qed

lemma rb_erase_mid:
  "distinct (map node_id (L @ n # R)) \<Longrightarrow> rb_erase (L @ n # R) (node_id n) = L @ R"
proof -
  assume d: "distinct (map node_id (L @ n # R))"
  then have "\<forall>m\<in>set (L @ R). node_id m \<noteq> node_id n" by (auto simp: image_iff)
  then have "filter (\<lambda>m. node_id m \<noteq> node_id n) (L @ R) = L @ R"
    by (simp only: filter_True)
  then show ?thesis by (simp add: rb_erase_def)
qed

lemma remove_loop_null [simp]: "remove_loop from to None t p = Some (t, p)"
  by (subst remove_loop.simps) simp

lemma remove_loop_stop:
  "node_of t i = Some n \<Longrightarrow> \<not> m_begin n < to \<Longrightarrow> remove_loop from to (Some i) t p = Some (t, p)"
  by (subst remove_loop.simps) simp

lemma remove_loop_step:
  "node_of t i = Some n \<Longrightarrow> m_begin n < to \<Longrightarrow>
   remove_loop from to (Some i) t p =
     (case (if m_begin n < from
            then uu_balloc_add_range (rb_erase t i) p (m_begin n) from
            else Some (rb_erase t i, p)) of
        None \<Rightarrow> None
      | Some (t2, p2) \<Rightarrow>
          (case (if m_end n > to
                 then uu_balloc_add_range t2 p2 to (m_end n)
                 else Some (t2, p2)) of
             None \<Rightarrow> None
           | Some (t3, p3) \<Rightarrow>
               remove_loop from to (rb_next t i) t3 (balloc_free_node i p3)))"
  by (subst remove_loop.simps) simp

text \<open>The loop stops at once in front of a suffix that starts at or above \<open>to\<close>.\<close>

lemma remove_loop_done:
  assumes "distinct (map node_id (L @ R))" "\<forall>n\<in>set R. \<not> m_begin n < to"
  shows "remove_loop from to (ptr_of R) (L @ R) p = Some (L @ R, p)"
proof (cases R)
  case Nil then show ?thesis by (simp add: ptr_of_def)
next
  case (Cons n R')
  then show ?thesis
    using assms remove_loop_stop [OF node_of_mid, of L n R' to "from" p]
    by (simp add: ptr_of_def)
qed

lemma ranges_simps [simp]:
  "ranges [] = []" "ranges (n # t) = (m_begin n, m_end n) # ranges t"
  "ranges (L @ R) = ranges L @ ranges R"
  by (simp_all add: ranges_def)

lemma carve_outside:
  "\<forall>n\<in>set R. \<not> m_begin n < to \<Longrightarrow> concat (map (carve from to) (ranges R)) = ranges R"
  by (induction R) (auto simp: carve_def)

lemma carve_below:
  "\<forall>n\<in>set L. m_end n \<le> from \<Longrightarrow> concat (map (carve from to) (ranges L)) = ranges L"
  by (induction L) (auto simp: carve_def)

text \<open>
  The loop, started at the first node of \<open>R\<close> with everything in front of it
  below \<open>from\<close>, cuts \<open>[from, to)\<close> out of every range of \<open>R\<close>; it halts on the
  pool only in its first iteration.
\<close>

lemma remove_loop_carve:
  assumes "weak_inv (L @ R)" "distinct (map node_id (L @ R) @ p)" "from < to"
    "\<forall>n\<in>set L. m_end n \<le> from" "\<forall>n\<in>set R. from < m_end n"
  shows "case remove_loop from to (ptr_of R) (L @ R) p of
           None \<Rightarrow> (case R of [] \<Rightarrow> False | n # _ \<Rightarrow> length p < node_needs from to n)
         | Some (t', p') \<Rightarrow>
             ranges t' = ranges L @ concat (map (carve from to) (ranges R)) \<and> weak_inv t'"
  using assms
proof (induction R arbitrary: L p)
  case Nil
  then show ?case by (simp add: ptr_of_def)
next
  case (Cons n R')
  have d: "distinct (map node_id (L @ n # R'))" using Cons.prems(2) by auto
  have inv: "weak_inv L" "weak_inv R'" "m_begin n \<le> m_end n"
    "\<forall>a\<in>set L. m_end a < m_begin n" "\<forall>b\<in>set R'. m_end n < m_begin b"
    "\<forall>a\<in>set L. \<forall>b\<in>set R'. m_end a < m_begin b"
    "\<forall>a\<in>set L. m_begin a \<le> m_end a"
    using Cons.prems(1) by (auto simp: weak_inv_append weak_inv_Cons weak_inv_begin_le)
  have fn: "from < m_end n" using Cons.prems(5) by simp
  have ptr: "ptr_of (n # R') = Some (node_id n)" by (simp add: ptr_of_def)
  show ?case
  proof (cases "m_begin n < to")
    case False
    with inv have "\<forall>m\<in>set (n # R'). \<not> m_begin m < to" by fastforce
    from remove_loop_done [OF _ this, of L "from" p] carve_outside [OF this, of "from"] d Cons.prems(1)
    show ?thesis by simp
  next
    case True
    note step = remove_loop_step [OF node_of_mid [OF d] True, of "from" p,
        unfolded rb_erase_mid [OF d] rb_next_mid [OF d]]
    show ?thesis
    proof (cases "m_begin n < from \<and> p = []")
      case True
      then show ?thesis unfolding ptr step using \<open>m_begin n < to\<close>
        by (simp add: node_needs_def)
    next
      case have_slot: False
      define lf where "lf = (if m_begin n < from
          then [\<lparr>node_id = hd p, m_begin = m_begin n, m_end = from\<rparr>] else [])"
      define p2 where "p2 = (if m_begin n < from then tl p else p)"
      have step1: "(if m_begin n < from
              then uu_balloc_add_range (L @ R') p (m_begin n) from
              else Some (L @ R', p)) = Some (L @ lf @ R', p2)"
      proof (cases "m_begin n < from")
        case True
        then obtain i1 p1 where p: "p = i1 # p1" using have_slot by (cases p) auto
        have "\<forall>m\<in>set L. m_begin m < m_begin n \<and> m_end m < m_begin n" using inv by fastforce
        moreover have "\<forall>m\<in>set R'. from < m_begin m" using inv fn by fastforce
        ultimately show ?thesis
          using add_range_apart [of L "m_begin n" R' "from" i1 p1] True
          by (simp add: lf_def p2_def p)
      next
        case False then show ?thesis by (simp add: lf_def p2_def)
      qed
      have lf_inv: "weak_inv (L @ lf @ R')"
        using inv fn Cons.prems(3)
        by (fastforce simp: lf_def weak_inv_append weak_inv_Cons)
      have lf_ranges: "ranges lf = (if m_begin n < from then [(m_begin n, from)] else [])"
        by (simp add: lf_def)
      have shape: "(\<not> m_begin n < from \<and> lf = [] \<and> p2 = p) \<or>
          (\<exists>i1. m_begin n < from \<and> p = i1 # p2
             \<and> lf = [\<lparr>node_id = i1, m_begin = m_begin n, m_end = from\<rparr>])"
        using have_slot by (cases p) (auto simp: p2_def lf_def)
      have lf_len: "m_begin n < from \<Longrightarrow> length p = Suc (length p2)"
        using have_slot by (cases p) (auto simp: p2_def)
      show ?thesis
      proof (cases "to < m_end n")
        case is_last: True
        show ?thesis
        proof (cases p2)
          case Nil
          then have "length p < node_needs from to n"
            using lf_len shape True is_last
            by (cases "m_begin n < from") (auto simp: node_needs_def)
          then show ?thesis unfolding ptr step step1 using Nil is_last by simp
        next
          case p2_cons: (Cons j q)
          define rf where "rf = \<lparr>node_id = j, m_begin = to, m_end = m_end n\<rparr>"
          have "\<forall>m\<in>set (L @ lf). m_begin m < to \<and> m_end m < to"
            using inv Cons.prems(3,4) True by (fastforce simp: lf_def)
          then have step2: "uu_balloc_add_range (L @ lf @ R') p2 to (m_end n)
                  = Some (L @ lf @ rf # R', q)"
            using add_range_apart [of "L @ lf" to R' "m_end n" j q] inv is_last
            by (simp add: p2_cons rf_def)
          have d3: "distinct (map node_id ((L @ lf @ [rf]) @ R'))"
          proof (cases "m_begin n < from")
            case True
            then obtain i1 where "p = i1 # j # q"
              "lf = [\<lparr>node_id = i1, m_begin = m_begin n, m_end = from\<rparr>]"
              using shape p2_cons by auto
            then show ?thesis using Cons.prems(2) by (auto simp: rf_def)
          next
            case False
            then have "p = j # q" "lf = []" using shape p2_cons by auto
            then show ?thesis using Cons.prems(2) by (auto simp: rf_def)
          qed
          have out: "\<forall>m\<in>set R'. \<not> m_begin m < to" using inv is_last by fastforce
          have fin: "remove_loop from to (ptr_of R') ((L @ lf @ [rf]) @ R') (node_id n # q)
               = Some ((L @ lf @ [rf]) @ R', node_id n # q)"
            by (rule remove_loop_done [OF d3 out])
          have inv3: "weak_inv (L @ lf @ rf # R')"
            using inv fn Cons.prems(3,4) is_last True
            by (fastforce simp: lf_def rf_def weak_inv_append weak_inv_Cons)
          have "remove_loop from to (ptr_of (n # R')) (L @ n # R') p
               = Some (L @ lf @ rf # R', node_id n # q)"
            unfolding ptr step step1
            using fin by (simp add: step2 is_last balloc_free_node_def)
          moreover have "ranges (L @ lf @ rf # R')
               = ranges L @ concat (map (carve from to) (ranges (n # R')))"
            using carve_outside [OF out, of "from"] True fn is_last Cons.prems(3)
            by (simp add: lf_ranges rf_def carve_def)
          ultimately show ?thesis using inv3 by simp
        qed
      next
        case not_last: False
        have d3: "distinct (map node_id ((L @ lf) @ R') @ node_id n # p2)"
        proof (cases "m_begin n < from")
          case True
          then obtain i1 where "p = i1 # p2"
            "lf = [\<lparr>node_id = i1, m_begin = m_begin n, m_end = from\<rparr>]"
            using shape by auto
          then show ?thesis using Cons.prems(2) by auto
        next
          case False
          then have "p2 = p" "lf = []" using shape by auto
          then show ?thesis using Cons.prems(2) by auto
        qed
        have eq: "remove_loop from to (ptr_of (n # R')) (L @ n # R') p
             = remove_loop from to (ptr_of R') ((L @ lf) @ R') (node_id n # p2)"
          unfolding ptr step step1
          by (simp add: not_last balloc_free_node_def)
        have ih: "case remove_loop from to (ptr_of R') ((L @ lf) @ R') (node_id n # p2) of
               None \<Rightarrow> (case R' of [] \<Rightarrow> False
                         | r # _ \<Rightarrow> length (node_id n # p2) < node_needs from to r)
             | Some (t', p') \<Rightarrow>
                 ranges t' = ranges (L @ lf) @ concat (map (carve from to) (ranges R'))
                 \<and> weak_inv t'"
        proof (rule Cons.IH)
          show "weak_inv ((L @ lf) @ R')" using lf_inv by simp
          show "distinct (map node_id ((L @ lf) @ R') @ node_id n # p2)" by (rule d3)
          show "from < to" by (rule Cons.prems(3))
          show "\<forall>n\<in>set (L @ lf). m_end n \<le> from" using Cons.prems(4) by (auto simp: lf_def)
          show "\<forall>n\<in>set R'. from < m_end n" using Cons.prems(5) by simp
        qed
        have c: "carve from to (m_begin n, m_end n) = ranges lf"
          using True fn not_last Cons.prems(3) by (simp add: carve_def lf_ranges)
        have "\<forall>r\<in>set R'. \<not> m_begin r < from" using inv fn by fastforce
        then have len: "\<not> (case R' of [] \<Rightarrow> False
                         | r # _ \<Rightarrow> length (node_id n # p2) < node_needs from to r)"
          by (cases R') (auto simp: node_needs_def)
        show ?thesis
          unfolding eq using ih len c by (auto split: option.splits)
      qed
    qed
  qed
qed

lemma weak_inv_ranges: "ranges t = ranges t' \<Longrightarrow> weak_inv t = weak_inv t'"
proof -
  assume r: "ranges t = ranges t'"
  have *: "\<And>t. weak_inv t \<longleftrightarrow>
      list_all (\<lambda>r. fst r \<le> snd r) (ranges t) \<and> sorted_wrt (\<lambda>a b. snd a < fst b) (ranges t)"
    by (simp add: weak_inv_def ranges_def list_all_iff sorted_wrt_map)
  show ?thesis by (simp add: * r)
qed

lemma interval_inv_ranges: "ranges t = ranges t' \<Longrightarrow> interval_inv t = interval_inv t'"
proof -
  assume r: "ranges t = ranges t'"
  have *: "\<And>t. interval_inv t \<longleftrightarrow>
      list_all (\<lambda>r. fst r < snd r) (ranges t) \<and> sorted_wrt (\<lambda>a b. snd a < fst b) (ranges t)"
    by (simp add: interval_inv_def ranges_def list_all_iff sorted_wrt_map)
  show ?thesis by (simp add: * r)
qed

text \<open>Under the invariant the descent of the removal splits the tree by \<open>end\<close>.\<close>

lemma first_above_split:
  assumes "weak_inv t"
  obtains L R where "t = L @ R" "\<forall>n\<in>set L. m_end n \<le> from" "\<forall>n\<in>set R. from < m_end n"
    "map_option node_id (first_above t from) = ptr_of R"
    "slots_needed t from to = (case R of [] \<Rightarrow> 0 | n # _ \<Rightarrow> node_needs from to n)"
    "dropWhile (\<lambda>n. \<not> from < m_end n) t = R"
proof -
  let ?P = "\<lambda>n. \<not> from < m_end n"
  let ?L = "takeWhile ?P t" and ?R = "dropWhile ?P t"
  have t: "t = ?L @ ?R" by simp
  have L: "\<forall>n\<in>set ?L. m_end n \<le> from" by (auto dest: set_takeWhileD)
  have R: "\<forall>n\<in>set ?R. from < m_end n"
  proof (cases ?R)
    case Nil then show ?thesis by (simp del: dropWhile_eq_Nil_conv)
  next
    case (Cons r rs)
    have hd: "from < m_end r" using hd_dropWhile [of ?P t] Cons by auto
    have "weak_inv (r # rs)" using assms t Cons weak_inv_append [of ?L ?R] by simp
    then have "\<forall>b\<in>set rs. m_end r < m_begin b" "\<forall>b\<in>set rs. m_begin b \<le> m_end b"
      by (auto simp: weak_inv_Cons weak_inv_begin_le)
    then have "\<forall>b\<in>set rs. m_end r < m_end b"
      by (meson order.strict_trans2)
    with hd show ?thesis using Cons by auto
  qed
  have fa: "first_above t from = (case ?R of [] \<Rightarrow> None | n # _ \<Rightarrow> Some n)"
    by (simp add: first_above_def find_dropWhile comp_def)
  have nd: "slots_needed t from to = (case ?R of [] \<Rightarrow> 0 | n # _ \<Rightarrow> node_needs from to n)"
    unfolding slots_needed_def fa by (simp split: list.splits del: dropWhile_eq_Nil_conv)
  note fa
  moreover have "\<And>R. map_option node_id (case R of [] \<Rightarrow> None | n # _ \<Rightarrow> Some n) = ptr_of R"
    by (simp add: ptr_of_def split: list.splits)
  ultimately have "map_option node_id (first_above t from) = ptr_of ?R"
    by (simp only:)
  with t L R nd that show thesis by blast
qed

lemma remove_range_carve_lt:
  assumes "weak_inv t" "slots_ok t p" "from < to"
  shows "case uu_balloc_remove_range t p from to of
           None \<Rightarrow> length p < slots_needed t from to
         | Some (t', p') \<Rightarrow>
             ranges t' = concat (map (carve from to) (ranges t)) \<and> weak_inv t'"
proof -
  obtain L R where t: "t = L @ R" and L: "\<forall>n\<in>set L. m_end n \<le> from"
    and R: "\<forall>n\<in>set R. from < m_end n"
    and ptr: "map_option node_id (first_above t from) = ptr_of R"
    and nd: "slots_needed t from to
      = (case R of [] \<Rightarrow> 0 | n # _ \<Rightarrow> node_needs from to n)"
    by (rule first_above_split [OF assms(1)])
  have inv: "weak_inv (L @ R)" using assms(1) unfolding t .
  have d: "distinct (map node_id (L @ R) @ p)" using assms(2) unfolding t slots_ok_def .
  have r: "ranges L @ concat (map (carve from to) (ranges R))
      = concat (map (carve from to) (ranges (L @ R)))"
    using carve_below [OF L, of to] by simp
  have "(case R of [] \<Rightarrow> False | n # _ \<Rightarrow> length p < node_needs from to n)
      = (length p < slots_needed t from to)"
    unfolding nd by (cases R) simp_all
  then show ?thesis
    using remove_loop_carve [OF inv d assms(3) L R]
    unfolding uu_balloc_remove_range_def ptr r unfolding t [symmetric]
    by (auto split: option.splits)
qed


lemma carve_empty [simp]: "carve x x r = [r]"
  by (simp add: carve_def)

lemma carve_empty_concat [simp]: "concat (map (carve x x) rs) = rs"
  by (induction rs) simp_all

text \<open>
  A removal with \<open>to <= from\<close> changes no range: a range that holds both ends is
  split at them and the two overlapping pieces merge again.
\<close>

lemma remove_range_backward:
  assumes "weak_inv t" "slots_ok t p" "to \<le> x"
  shows "case uu_balloc_remove_range t p x to of
           None \<Rightarrow> length p < slots_needed t x to
         | Some (t', p') \<Rightarrow> ranges t' = ranges t"
proof -
  obtain L R where t: "t = L @ R" and L: "\<forall>n\<in>set L. m_end n \<le> x"
    and R: "\<forall>n\<in>set R. x < m_end n"
    and ptr: "map_option node_id (first_above t x) = ptr_of R"
    and nd: "slots_needed t x to = (case R of [] \<Rightarrow> 0 | n # _ \<Rightarrow> node_needs x to n)"
    by (rule first_above_split [OF assms(1)])
  have inv: "weak_inv (L @ R)" using assms(1) unfolding t .
  have d: "distinct (map node_id (L @ R) @ p)" using assms(2) unfolding t slots_ok_def .
  have "case remove_loop x to (ptr_of R) (L @ R) p of
           None \<Rightarrow> length p < slots_needed t x to
         | Some (t', p') \<Rightarrow> ranges t' = ranges (L @ R)"
  proof (cases R)
    case Nil
    then show ?thesis by (simp add: ptr_of_def)
  next
    case (Cons n R')
    have dn: "distinct (map node_id (L @ n # R'))" using d Cons by auto
    have iv: "m_begin n \<le> m_end n" "\<forall>a\<in>set L. m_end a < m_begin n"
      "\<forall>b\<in>set R'. m_end n < m_begin b" "\<forall>a\<in>set L. m_begin a \<le> m_end a"
      using inv Cons
      by (auto simp: weak_inv_append weak_inv_Cons weak_inv_begin_le)
    have xn: "x < m_end n" using R Cons by simp
    have pn: "ptr_of (n # R') = Some (node_id n)" by (simp add: ptr_of_def)
    show ?thesis
    proof (cases "m_begin n < to")
      case False
      show ?thesis
        unfolding Cons pn remove_loop_stop [OF node_of_mid [OF dn] False] by simp
    next
      case bt: True
      then have True: "m_begin n < x" using assms(3) by simp
      have tn: "to < m_end n" using assms(3) xn by simp
      note step = remove_loop_step [OF node_of_mid [OF dn] bt, of x p,
          unfolded rb_erase_mid [OF dn] rb_next_mid [OF dn]]
      show ?thesis
      proof (cases p)
        case Nil
        show ?thesis unfolding Cons pn step nd using True bt Nil xn
          by (simp add: node_needs_def)
      next
        case p1: (Cons i1 p1)
        define lf where "lf = \<lparr>node_id = i1, m_begin = m_begin n, m_end = x\<rparr>"
        have La: "\<forall>m\<in>set L. m_begin m < m_begin n \<and> m_end m < m_begin n"
          using iv by fastforce
        have Ra: "\<forall>m\<in>set R'. x < m_begin m" using iv xn by fastforce
        have step1: "uu_balloc_add_range (L @ R') p (m_begin n) x = Some (L @ lf # R', p1)"
          using add_range_apart [OF La Ra, of i1 p1] True by (simp add: p1 lf_def)
        show ?thesis
        proof (cases p1)
          case Nil
          show ?thesis unfolding Cons pn step nd using True bt tn step1 Nil p1
            by (simp add: node_needs_def)
        next
          case p2: (Cons i2 p2)
          define new where "new = \<lparr>node_id = i2, m_begin = m_begin n, m_end = m_end n\<rparr>"
          have Lb: "\<forall>m\<in>set (L @ [lf]). m_begin m < to"
            using La bt by (fastforce simp: lf_def)
          have Rb: "\<forall>m\<in>set R'. \<not> m_begin m < to" using Ra assms(3) by fastforce
          have ap: "absorb_prev (L @ [lf]) \<lparr>node_id = i2, m_begin = to, m_end = m_end n\<rparr> p2
              = (L, new, i1 # p2)"
            using xn assms(3) by (auto simp: absorb_prev_def lf_def new_def balloc_free_node_def)
          have an: "absorb_next R' new (i1 # p2) = (R', new, i1 # p2)"
            using iv(3) by (cases R') (auto simp: absorb_next_def new_def)
          have step2: "uu_balloc_add_range (L @ lf # R') p1 to (m_end n)
              = Some (L @ new # R', i1 # p2)"
            using add_range_split [OF Lb Rb, of i2 p2 "m_end n"] by (simp add: ap an p2)
          have d3: "distinct (map node_id ((L @ [new]) @ R'))"
            using d Cons p1 p2 by (auto simp: new_def)
          have fin: "remove_loop x to (ptr_of R') ((L @ [new]) @ R') (node_id n # i1 # p2)
              = Some ((L @ [new]) @ R', node_id n # i1 # p2)"
            by (rule remove_loop_done [OF d3 Rb])
          show ?thesis
            unfolding Cons pn step using True tn fin
            by (simp add: step1 step2 balloc_free_node_def new_def)
        qed
      qed
    qed
  qed
  then show ?thesis
    unfolding uu_balloc_remove_range_def ptr unfolding t [symmetric] .
qed

lemma remove_range_empty:
  assumes "weak_inv t" "slots_ok t p"
  shows "case uu_balloc_remove_range t p x x of
           None \<Rightarrow> length p < slots_needed t x x
         | Some (t', p') \<Rightarrow> ranges t' = ranges t"
  by (rule remove_range_backward [OF assms order_refl])

text \<open>The covered addresses are determined by the ranges.\<close>

lemma covered_ranges: "covered t = (\<Union>r\<in>set (ranges t). {fst r ..< snd r})"
  by (simp add: covered_def ranges_def)

lemma carve_cover_one:
  "from \<le> to \<Longrightarrow> (\<Union>r\<in>set (carve from to r0). {fst r ..< snd r}) = {fst r0 ..< snd r0} - {from ..< to}"
  by (auto simp: carve_def)

lemma carve_cover:
  "from \<le> to \<Longrightarrow>
     (\<Union>r\<in>set (concat (map (carve from to) rs)). {fst r ..< snd r})
       = (\<Union>r\<in>set rs. {fst r ..< snd r}) - {from ..< to}"
proof (induction rs)
  case Nil then show ?case by simp
next
  case (Cons r0 rs)
  have "(\<Union>r\<in>set (concat (map (carve from to) (r0 # rs))). {fst r ..< snd r})
      = (\<Union>r\<in>set (carve from to r0). {fst r ..< snd r})
        \<union> (\<Union>r\<in>set (concat (map (carve from to) rs)). {fst r ..< snd r})"
    by simp
  also have "\<dots> = ({fst r0 ..< snd r0} - {from ..< to})
        \<union> ((\<Union>r\<in>set rs. {fst r ..< snd r}) - {from ..< to})"
    by (simp only: carve_cover_one [OF Cons.prems] Cons.IH [OF Cons.prems])
  also have "\<dots> = (\<Union>r\<in>set (r0 # rs). {fst r ..< snd r}) - {from ..< to}"
    by auto
  finally show ?case .
qed

text \<open>
  \<open>__balloc_remove_range\<close> on a set that satisfies the invariant: it halts on the pool
  only when the first node it visits needs more slots than are free, and otherwise leaves
  every stored range carved.
\<close>

lemma remove_range_carve_weak:
  assumes "weak_inv t" "slots_ok t p" "from \<le> to"
  shows "case uu_balloc_remove_range t p from to of
           None \<Rightarrow> length p < slots_needed t from to
         | Some (t', p') \<Rightarrow>
             ranges t' = concat (map (carve from to) (ranges t)) \<and> weak_inv t'"
proof (cases "from < to")
  case True
  then show ?thesis by (rule remove_range_carve_lt [OF assms(1,2)])
next
  case False
  then have eq: "to = from" using assms(3) by simp
  show ?thesis
    using remove_range_empty [OF assms(1,2), of "from"] assms(1)
    unfolding eq
    by (auto split: option.splits simp: comp_def dest: weak_inv_ranges)
qed

text \<open>The same for any \<open>from\<close> and \<open>to\<close>; with \<open>to <= from\<close> nothing is carved.\<close>

lemma carve_backward: "to \<le> from \<Longrightarrow> concat (map (carve from to) rs) = rs"
proof -
  assume "to \<le> from"
  then have "\<not> from < to" by simp
  then have "carve from to r = [r]" for r by (simp add: carve_def)
  then show ?thesis by (induction rs) simp_all
qed

lemma remove_range_carve_any:
  assumes "weak_inv t" "slots_ok t p"
  shows "case uu_balloc_remove_range t p from to of
           None \<Rightarrow> length p < slots_needed t from to
         | Some (t', p') \<Rightarrow>
             ranges t' = concat (map (carve from to) (ranges t)) \<and> weak_inv t'"
proof (cases "from < to")
  case True
  then show ?thesis by (rule remove_range_carve_lt [OF assms(1,2)])
next
  case False
  then have le: "to \<le> from" by simp
  show ?thesis
    using remove_range_backward [OF assms(1,2) le] assms(1)
    by (auto split: option.splits simp: carve_backward [OF le] dest: weak_inv_ranges)
qed

lemma carve_cover_any:
  "(\<Union>r\<in>set (concat (map (carve from to) rs)). {fst r ..< snd r})
     = (\<Union>r\<in>set rs. {fst r ..< snd r}) - {from ..< to}"
proof (cases "from \<le> to")
  case True
  then show ?thesis by (rule carve_cover)
next
  case False
  then have "to \<le> from" by simp
  then show ?thesis by (simp add: carve_backward)
qed

text \<open>Carving leaves no empty range behind.\<close>

lemma carve_nonempty:
  "\<forall>r\<in>set rs. fst r < snd r \<Longrightarrow>
     \<forall>r\<in>set (concat (map (carve from to) rs)). fst r < snd r"
  by (induction rs) (auto simp: carve_def)

lemma remove_range_carve:
  assumes "interval_inv t" "slots_ok t p" "from \<le> to"
  shows "case uu_balloc_remove_range t p from to of
           None \<Rightarrow> length p < slots_needed t from to
         | Some (t', p') \<Rightarrow>
             ranges t' = concat (map (carve from to) (ranges t)) \<and> interval_inv t'"
proof (cases "uu_balloc_remove_range t p from to")
  case None
  with remove_range_carve_weak [OF interval_inv_weak [OF assms(1)] assms(2,3)]
  show ?thesis by simp
next
  case (Some r)
  obtain t' p' where r: "r = (t', p')" by (cases r)
  from remove_range_carve_weak [OF interval_inv_weak [OF assms(1)] assms(2,3)] Some r
  have rs: "ranges t' = concat (map (carve from to) (ranges t))" and w: "weak_inv t'"
    by simp_all
  have "\<forall>r\<in>set (ranges t). fst r < snd r"
    using assms(1) by (simp add: interval_inv_iff_weak)
  then have "\<forall>r\<in>set (ranges t'). fst r < snd r"
    unfolding rs by (rule carve_nonempty)
  with w have "interval_inv t'" by (simp add: interval_inv_iff_weak)
  with rs show ?thesis by (simp add: Some r)
qed

subsection \<open>Conservation of slots\<close>

lemma node_of_SomeD: "node_of t i = Some n \<Longrightarrow> n \<in> set t \<and> node_id n = i"
  by (induction t) (auto simp: node_of_def split: if_splits)

lemma distinct_mset_append:
  "mset a + mset b = mset c + mset d \<Longrightarrow> distinct (a @ b) = distinct (c @ d)"
  using mset_eq_imp_distinct_iff [of "a @ b" "c @ d"] by simp

lemma rb_erase_mset:
  assumes "node_of t i = Some n" "distinct (map node_id t)"
  shows "mset (map node_id (rb_erase t i)) + {#i#} = mset (map node_id t)"
proof -
  from node_of_SomeD [OF assms(1)] obtain L R where t: "t = L @ n # R" and i: "node_id n = i"
    by (auto dest: split_list)
  have "rb_erase t i = L @ R" using rb_erase_mid [of L n R] assms(2) unfolding t i by simp
  then show ?thesis by (simp add: t i)
qed

lemma add_range_opt_mset:
  "(if c then uu_balloc_add_range t p from to else Some (t, p)) = Some (t', p') \<Longrightarrow>
     mset (map node_id t') + mset p' = mset (map node_id t) + mset p"
  by (auto dest: add_range_mset split: if_splits)

lemma remove_loop_mset:
  assumes "remove_loop from to ptr t p = Some y"
  shows "distinct (map node_id t @ p) \<longrightarrow>
       mset (map node_id (fst y)) + mset (snd y) = mset (map node_id t) + mset p"
proof (rule remove_loop.raw_induct [OF _ assms])
  fix rl "from" to ptr t p y
  assume 1: "\<And>from to ptr t p y. rl from to ptr t p = Some y \<Longrightarrow>
      distinct (map node_id t @ p) \<longrightarrow>
       mset (map node_id (fst y)) + mset (snd y) = mset (map node_id t) + mset p"
    "(case ptr of None \<Rightarrow> Some (t, p)
      | Some i \<Rightarrow>
          case node_of t i of None \<Rightarrow> None
          | Some n \<Rightarrow>
              if m_begin n < to
              then case if m_begin n < from
                        then uu_balloc_add_range (rb_erase t i) p (m_begin n) from
                        else Some (rb_erase t i, p) of
                   None \<Rightarrow> None
                   | Some (t2, p2) \<Rightarrow>
                       case if to < m_end n
                            then uu_balloc_add_range t2 p2 to (m_end n)
                            else Some (t2, p2) of
                       None \<Rightarrow> None
                       | Some (t3, p3) \<Rightarrow>
                           rl from to (rb_next t i) t3 (balloc_free_node i p3)
              else Some (t, p)) = Some y"
  show "distinct (map node_id t @ p) \<longrightarrow>
       mset (map node_id (fst y)) + mset (snd y) = mset (map node_id t) + mset p"
  proof
    assume d: "distinct (map node_id t @ p)"
    show "mset (map node_id (fst y)) + mset (snd y) = mset (map node_id t) + mset p"
    proof (cases ptr)
      case None
      with 1(2) show ?thesis by auto
    next
      case (Some i)
      with 1(2) obtain n where n: "node_of t i = Some n"
        by (cases "node_of t i") auto
      show ?thesis
      proof (cases "m_begin n < to")
        case False
        with 1(2) Some n show ?thesis by auto
      next
        case True
        from 1(2) Some n True obtain t2 p2 t3 p3 where
          s1: "(if m_begin n < from
                then uu_balloc_add_range (rb_erase t i) p (m_begin n) from
                else Some (rb_erase t i, p)) = Some (t2, p2)" and
          s2: "(if to < m_end n then uu_balloc_add_range t2 p2 to (m_end n)
                else Some (t2, p2)) = Some (t3, p3)" and
          rec: "rl from to (rb_next t i) t3 (balloc_free_node i p3) = Some y"
          by (simp split: option.splits prod.splits)
        have e: "mset (map node_id (rb_erase t i)) + {#i#} = mset (map node_id t)"
          using rb_erase_mset [OF n] d by simp
        have m3: "mset (map node_id t3) + mset (balloc_free_node i p3)
            = mset (map node_id t) + mset p"
          using add_range_opt_mset [OF s1] add_range_opt_mset [OF s2] e
          by (simp add: balloc_free_node_def)
        then have "distinct (map node_id t3 @ balloc_free_node i p3)"
          using distinct_mset_append d by blast
        with 1(1) [OF rec] m3 show ?thesis by simp
      qed
    qed
  qed
qed

lemma remove_range_mset:
  assumes "uu_balloc_remove_range t p from to = Some (t', p')" "slots_ok t p"
  shows "mset (map node_id t') + mset p' = mset (map node_id t) + mset p"
  using remove_loop_mset [OF assms(1) [unfolded uu_balloc_remove_range_def]] assms(2)
  by (simp add: slots_ok_def)

lemma remove_range_on_mset:
  assumes "uu_balloc_remove_range_on T p from to = Some (t', p')" "slots_ok (inorder T) p"
  shows "mset (map node_id t') + mset p' = mset (map node_id (inorder T)) + mset p"
  using remove_loop_mset [OF assms(1) [unfolded uu_balloc_remove_range_on_def]] assms(2)
  by (simp add: slots_ok_def)

lemma slots_ok_mset:
  "mset (map node_id t') + mset p' = mset (map node_id t) + mset p \<Longrightarrow>
     slots_ok t' p' = slots_ok t p"
  unfolding slots_ok_def by (rule distinct_mset_append)

lemma add_range_slots_ok:
  "uu_balloc_add_range t p from to = Some (t', p') \<Longrightarrow> slots_ok t p \<Longrightarrow> slots_ok t' p'"
  using slots_ok_mset [OF add_range_mset] by blast

lemma remove_range_slots_ok:
  "uu_balloc_remove_range t p from to = Some (t', p') \<Longrightarrow> slots_ok t p \<Longrightarrow> slots_ok t' p'"
  using slots_ok_mset [OF remove_range_mset] by blast

subsection \<open>The invariant along sequences of operations\<close>

lemma slots_needed_le: "slots_needed t from to \<le> 2"
  by (simp add: slots_needed_def node_needs_def split: option.splits)

lemma interval_inv_sorted:
  assumes "interval_inv t"
  shows "sorted_wrt (\<lambda>a b. m_begin a < m_begin b) t"
    and "sorted_wrt (\<lambda>a b. {m_begin a .. m_end a} \<inter> {m_begin b .. m_end b} = {}) t"
proof -
  have ne: "\<forall>n\<in>set t. m_begin n < m_end n"
    and s: "sorted_wrt (\<lambda>a b. m_end a < m_begin b) t"
    using assms by (simp_all add: interval_inv_def list_all_iff)
  show "sorted_wrt (\<lambda>a b. m_begin a < m_begin b) t"
    using s ne by (induction t) (auto intro: order.strict_trans)
  show "sorted_wrt (\<lambda>a b. {m_begin a .. m_end a} \<inter> {m_begin b .. m_end b} = {}) t"
    using s by (rule sorted_wrt_mono_rel [rotated]) auto
qed

lemma run_ops_inv:
  assumes "run_ops ops (t0, p0) = Some (t, p)" "interval_inv t0" "slots_ok t0 p0"
    "list_all op_ok ops"
  shows "interval_inv t \<and> slots_ok t p"
  using assms
proof (induction ops arbitrary: t0 p0)
  case Nil
  then show ?case by simp
next
  case (Cons x xs)
  from Cons.prems(1) obtain t1 p1 where a: "apply_op x (t0, p0) = Some (t1, p1)"
    and r: "run_ops xs (t1, p1) = Some (t, p)"
    by (auto split: option.splits)
  have "interval_inv t1 \<and> slots_ok t1 p1"
  proof (cases x)
    case (Add_range f e)
    with a Cons.prems show ?thesis
      by (auto dest: add_range_inv add_range_slots_ok)
  next
    case (Remove_range f e)
    with a Cons.prems remove_range_carve [of t0 p0 f e] show ?thesis
      by (auto dest: remove_range_slots_ok)
  qed
  with Cons.IH [OF r] Cons.prems(4) show ?case by simp
qed

text \<open>
  C2: starting from the empty interval set, after any sequence of \<open>add_range\<close> calls
  with \<open>from < to\<close> and \<open>remove_range\<close> calls with \<open>from \<le> to\<close> that the
  allocator completes, every stored range is non-empty and ends strictly below the begin
  of every later one; so the begins increase strictly along the traversal and no two
  stored ranges overlap or share an endpoint.
\<close>

theorem ops_keep_disjoint:
  assumes "list_all op_ok ops" "distinct p" "run_ops ops ([], p) = Some (t, p')"
  shows "interval_inv t
    \<and> sorted_wrt (\<lambda>a b. m_begin a < m_begin b) t
    \<and> sorted_wrt (\<lambda>a b. {m_begin a .. m_end a} \<inter> {m_begin b .. m_end b} = {}) t"
proof -
  have "interval_inv t"
    using run_ops_inv [OF assms(3) _ _ assms(1)] assms(2) by (simp add: slots_ok_def)
  then show ?thesis using interval_inv_sorted by blast
qed

theorem ops_keep_disjoint_witness:
  "list_all op_ok [Add_range 10 20, Add_range 30 40, Add_range 0 100, Remove_range 5 12]
   \<and> distinct [0, 1, 2, 3 :: nat]
   \<and> run_ops [Add_range 10 20, Add_range 30 40, Add_range 0 100, Remove_range 5 12]
        ([], [0, 1, 2, 3])
      = Some ([\<lparr>node_id = 0, m_begin = 0, m_end = 5\<rparr>,
               \<lparr>node_id = 3, m_begin = 12, m_end = 20\<rparr>,
               \<lparr>node_id = 1, m_begin = 30, m_end = 40\<rparr>], [2])
   \<and> interval_inv [\<lparr>node_id = 0, m_begin = 0, m_end = 5\<rparr>,
               \<lparr>node_id = 3, m_begin = 12, m_end = 20\<rparr>,
               \<lparr>node_id = 1, m_begin = 30, m_end = 40\<rparr>]"
proof -
  have h1: "list_all op_ok [Add_range 10 20, Add_range 30 40, Add_range 0 100, Remove_range 5 12]"
    by simp
  have h2: "distinct [0, 1, 2, 3 :: nat]" by simp
  have h3: "run_ops [Add_range 10 20, Add_range 30 40, Add_range 0 100, Remove_range 5 12]
        ([], [0, 1, 2, 3])
      = Some ([\<lparr>node_id = 0, m_begin = 0, m_end = 5\<rparr>,
               \<lparr>node_id = 3, m_begin = 12, m_end = 20\<rparr>,
               \<lparr>node_id = 1, m_begin = 30, m_end = 40\<rparr>], [2])"
    by code_simp
  from ops_keep_disjoint [OF h1 h2 h3] h1 h2 h3 show ?thesis by blast
qed


text \<open>
  C3: on an interval set that satisfies the invariant, \<open>remove_range(set, from, to)\<close>
  with \<open>from \<le> to\<close> halts on the pool only when it needs more slots than are free (it
  never needs more than two); when it returns, no stored range overlaps \<open>[from, to)\<close>,
  the covered addresses are the old ones outside \<open>[from, to)\<close> (so every address covered
  before and outside \<open>[from, to)\<close> is still covered), and the invariant holds again.
  Removing \<open>[40, 60)\<close> from \<open>{[0, 100)}\<close> leaves \<open>{[0, 40), [60, 100)}\<close>.
\<close>

theorem remove_range_correct:
  assumes "interval_inv t" "slots_ok t p" "from \<le> to"
  shows "(case uu_balloc_remove_range t p from to of
            None \<Rightarrow> length p < slots_needed t from to \<and> length p < 2
          | Some (t', p') \<Rightarrow>
              (\<forall>n\<in>set t'. {m_begin n ..< m_end n} \<inter> {from ..< to} = {})
              \<and> covered t' = covered t - {from ..< to}
              \<and> interval_inv t')
       \<and> map_option (\<lambda>r. ranges (fst r))
            (uu_balloc_remove_range [\<lparr>node_id = 0, m_begin = 0, m_end = 100\<rparr>] [1, 2] 40 60)
          = Some [(0, 40), (60, 100)]"
proof -
  have ex: "map_option (\<lambda>r. ranges (fst r))
      (uu_balloc_remove_range [\<lparr>node_id = 0, m_begin = 0, m_end = 100\<rparr>] [1, 2] 40 60)
    = Some [(0, 40), (60, 100)]"
    by code_simp
  have "case uu_balloc_remove_range t p from to of
            None \<Rightarrow> length p < slots_needed t from to \<and> length p < 2
          | Some (t', p') \<Rightarrow>
              (\<forall>n\<in>set t'. {m_begin n ..< m_end n} \<inter> {from ..< to} = {})
              \<and> covered t' = covered t - {from ..< to}
              \<and> interval_inv t'"
  proof (cases "uu_balloc_remove_range t p from to")
    case None
    with remove_range_carve [OF assms] slots_needed_le [of t "from" to] show ?thesis by simp
  next
    case (Some r)
    obtain t' p' where r: "r = (t', p')" by (cases r)
    from remove_range_carve [OF assms] Some r
    have rs: "ranges t' = concat (map (carve from to) (ranges t))" and inv: "interval_inv t'"
      by simp_all
    have cov: "covered t' = covered t - {from ..< to}"
      unfolding covered_ranges rs by (rule carve_cover [OF assms(3)])
    then have "\<forall>n\<in>set t'. {m_begin n ..< m_end n} \<inter> {from ..< to} = {}"
      unfolding covered_def by blast
    with cov inv Some r show ?thesis by simp
  qed
  with ex show ?thesis by blast
qed

theorem remove_range_correct_witness:
  "interval_inv [\<lparr>node_id = 0, m_begin = 0, m_end = 100\<rparr>]
   \<and> slots_ok [\<lparr>node_id = 0, m_begin = 0, m_end = 100\<rparr>] [1, 2]
   \<and> (40 :: u64) \<le> 60
   \<and> uu_balloc_remove_range [\<lparr>node_id = 0, m_begin = 0, m_end = 100\<rparr>] [1, 2] 40 60
       = Some ([\<lparr>node_id = 1, m_begin = 0, m_end = 40\<rparr>,
                \<lparr>node_id = 2, m_begin = 60, m_end = 100\<rparr>], [0])
   \<and> covered [\<lparr>node_id = 1, m_begin = 0, m_end = 40\<rparr>,
              \<lparr>node_id = 2, m_begin = 60, m_end = 100\<rparr>]
       = covered [\<lparr>node_id = 0, m_begin = 0, m_end = 100\<rparr>] - {40 ..< 60}"
proof -
  have h1: "interval_inv [\<lparr>node_id = 0, m_begin = 0, m_end = 100\<rparr>]"
    by (simp add: interval_inv_def)
  have h2: "slots_ok [\<lparr>node_id = 0, m_begin = 0, m_end = 100\<rparr>] [1, 2]"
    by (simp add: slots_ok_def)
  have h3: "(40 :: u64) \<le> 60" by simp
  have r: "uu_balloc_remove_range [\<lparr>node_id = 0, m_begin = 0, m_end = 100\<rparr>] [1, 2] 40 60
       = Some ([\<lparr>node_id = 1, m_begin = 0, m_end = 40\<rparr>,
                \<lparr>node_id = 2, m_begin = 60, m_end = 100\<rparr>], [0])"
    by code_simp
  from remove_range_correct [OF h1 h2 h3] h1 h2 h3 r show ?thesis by simp
qed

text \<open>
  C9: on an interval set that satisfies the invariant, the degenerate call
  \<open>remove_range(set, x, x)\<close> leaves the traversal output as it was. (When \<open>x\<close> lies
  strictly inside a stored range the call still splits that range and merges the two
  halves again, for which it takes two slots from the pool; with fewer free slots it
  halts.)
\<close>

theorem remove_range_degenerate:
  assumes "interval_inv t" "slots_ok t p"
  shows "case uu_balloc_remove_range t p x x of
           None \<Rightarrow> length p < slots_needed t x x
         | Some (t', p') \<Rightarrow> ranges t' = ranges t"
  by (rule remove_range_empty [OF interval_inv_weak [OF assms(1)] assms(2)])

theorem remove_range_degenerate_witness:
  "interval_inv [\<lparr>node_id = 0, m_begin = 0, m_end = 100\<rparr>]
   \<and> slots_ok [\<lparr>node_id = 0, m_begin = 0, m_end = 100\<rparr>] [1, 2]
   \<and> uu_balloc_remove_range [\<lparr>node_id = 0, m_begin = 0, m_end = 100\<rparr>] [1, 2] 50 50
       = Some ([\<lparr>node_id = 2, m_begin = 0, m_end = 100\<rparr>], [0, 1])
   \<and> ranges [\<lparr>node_id = 2, m_begin = 0, m_end = 100\<rparr>]
       = ranges [\<lparr>node_id = 0, m_begin = 0, m_end = 100\<rparr>]"
proof -
  have h1: "interval_inv [\<lparr>node_id = 0, m_begin = 0, m_end = 100\<rparr>]"
    by (simp add: interval_inv_def)
  have h2: "slots_ok [\<lparr>node_id = 0, m_begin = 0, m_end = 100\<rparr>] [1, 2]"
    by (simp add: slots_ok_def)
  have r: "uu_balloc_remove_range [\<lparr>node_id = 0, m_begin = 0, m_end = 100\<rparr>] [1, 2] 50 50
       = Some ([\<lparr>node_id = 2, m_begin = 0, m_end = 100\<rparr>], [0, 1])"
    by code_simp
  from remove_range_degenerate [OF h1 h2, of 50] h1 h2 r show ?thesis by simp
qed

subsection \<open>Insertion followed by removal\<close>








subsection \<open>Accounting of the pool\<close>

lemma setup_nodes_list: "fold balloc_free_node xs acc = rev xs @ acc"
  by (induction xs arbitrary: acc) (simp_all add: balloc_free_node_def)

lemma pool_inv_init: "pool_inv (balloc_setup_nodes boot_state)"
  by (simp add: pool_inv_def balloc_setup_nodes_def boot_state_def setup_nodes_list
        del: upt_Suc)

lemma pool_inv_distinct:
  assumes "pool_inv st"
  shows "distinct (map node_id (memory_map st) @ map node_id (free_ranges st) @ balloc_free_list st)"
proof -
  have "mset (map node_id (memory_map st) @ map node_id (free_ranges st) @ balloc_free_list st)
      = mset [0 ..< BALLOC_MAX_RANGES]"
    using assms by (simp add: pool_inv_def ac_simps)
  from mset_eq_imp_distinct_iff [OF this] show ?thesis by simp
qed

lemma pool_inv_slots_ok:
  assumes "pool_inv st"
  shows "slots_ok (memory_map st) (balloc_free_list st)"
    and "slots_ok (free_ranges st) (balloc_free_list st)"
  using pool_inv_distinct [OF assms] by (auto simp: slots_ok_def)

lemma pool_inv_length:
  assumes "pool_inv st"
  shows "length (memory_map st) + length (free_ranges st) + length (balloc_free_list st)
      = BALLOC_MAX_RANGES"
proof -
  have "size (mset (map node_id (memory_map st)) + mset (map node_id (free_ranges st))
       + mset (balloc_free_list st)) = size (mset [0 ..< BALLOC_MAX_RANGES])"
    using assms by (simp only: pool_inv_def)
  then show ?thesis by simp
qed

lemma pool_inv_swap_known:
  assumes "mset (map node_id t) + mset p
      = mset (map node_id (memory_map st)) + mset (balloc_free_list st)" "pool_inv st"
  shows "pool_inv (st\<lparr>memory_map := t, balloc_free_list := p\<rparr>)"
proof -
  have "mset (map node_id t) + mset (map node_id (free_ranges st)) + mset p
      = (mset (map node_id t) + mset p) + mset (map node_id (free_ranges st))"
    by (simp add: ac_simps)
  also have "\<dots> = (mset (map node_id (memory_map st)) + mset (balloc_free_list st))
      + mset (map node_id (free_ranges st))"
    by (simp only: assms(1))
  also have "\<dots> = mset [0 ..< BALLOC_MAX_RANGES]"
    using assms(2) by (simp add: pool_inv_def ac_simps)
  finally show ?thesis by (simp add: pool_inv_def)
qed

lemma pool_inv_swap_free:
  assumes "mset (map node_id t) + mset p
      = mset (map node_id (free_ranges st)) + mset (balloc_free_list st)" "pool_inv st"
  shows "pool_inv (st\<lparr>free_ranges := t, balloc_free_list := p\<rparr>)"
proof -
  have "mset (map node_id (memory_map st)) + mset (map node_id t) + mset p
      = mset (map node_id (memory_map st)) + (mset (map node_id t) + mset p)"
    by (simp add: ac_simps)
  also have "\<dots> = mset (map node_id (memory_map st))
      + (mset (map node_id (free_ranges st)) + mset (balloc_free_list st))"
    by (simp only: assms(1))
  also have "\<dots> = mset [0 ..< BALLOC_MAX_RANGES]"
    using assms(2) by (simp add: pool_inv_def ac_simps)
  finally show ?thesis by (simp add: pool_inv_def)
qed

lemma pool_inv_add_known:
  "add_known from to st = Some st' \<Longrightarrow> pool_inv st \<Longrightarrow> pool_inv st'"
  by (auto simp: add_known_def split: option.splits
        intro!: pool_inv_swap_known add_range_mset)

lemma pool_inv_add_free:
  "add_free from to st = Some st' \<Longrightarrow> pool_inv st \<Longrightarrow> pool_inv st'"
  by (auto simp: add_free_def split: option.splits
        intro!: pool_inv_swap_free add_range_mset)

lemma pool_inv_remove_known:
  assumes "remove_known T from to st = Some st'" "inorder T = memory_map st" "pool_inv st"
  shows "pool_inv st'"
proof -
  from assms(1) obtain t p where
    r: "uu_balloc_remove_range_on T (balloc_free_list st) from to = Some (t, p)"
    and st': "st' = st\<lparr>memory_map := t, balloc_free_list := p\<rparr>"
    by (auto simp: remove_known_def split: option.splits)
  have "slots_ok (inorder T) (balloc_free_list st)"
    using pool_inv_slots_ok(1) [OF assms(3)] by (simp add: assms(2))
  from remove_range_on_mset [OF r this] show ?thesis
    unfolding st' assms(2) using assms(3) by (rule pool_inv_swap_known)
qed

lemma pool_inv_remove_free:
  assumes "remove_free T from to st = Some st'" "inorder T = free_ranges st" "pool_inv st"
  shows "pool_inv st'"
proof -
  from assms(1) obtain t p where
    r: "uu_balloc_remove_range_on T (balloc_free_list st) from to = Some (t, p)"
    and st': "st' = st\<lparr>free_ranges := t, balloc_free_list := p\<rparr>"
    by (auto simp: remove_free_def split: option.splits)
  have "slots_ok (inorder T) (balloc_free_list st)"
    using pool_inv_slots_ok(2) [OF assms(3)] by (simp add: assms(2))
  from remove_range_on_mset [OF r this] show ?thesis
    unfolding st' assms(2) using assms(3) by (rule pool_inv_swap_free)
qed

lemma alloc_scan_mem:
  "alloc_scan sz align from to ns = Some (n, addr) \<Longrightarrow>
     n \<in> set ns \<and> m_begin n < to \<and> alloc_fit sz align from to n = Some addr"
  by (induction ns) (auto split: if_splits option.splits)

lemma walk_from_subset: "n \<in> set (walk_from ptr t) \<Longrightarrow> n \<in> set t"
  by (auto simp: walk_from_def split: option.splits dest: set_dropWhileD)

lemma rb_erase_member_mset:
  assumes "n \<in> set t" "distinct (map node_id t)"
  shows "mset (map node_id (rb_erase t (node_id n))) + {#node_id n#} = mset (map node_id t)"
proof -
  from assms(1) obtain L R where t: "t = L @ n # R" by (auto dest: split_list)
  have "rb_erase t (node_id n) = L @ R" using rb_erase_mid [of L n R] assms(2) unfolding t by simp
  then show ?thesis by (simp add: t)
qed

lemma pool_inv_alloc:
  assumes "uu_balloc_alloc T sz align from to st = Some (a, st')"
    "inorder T = free_ranges st" "pool_inv st"
  shows "pool_inv st'"
proof (cases "alloc_scan sz align from to (walk_from (first_ptr T from) (inorder T))")
  case None
  with assms show ?thesis by (simp add: uu_balloc_alloc_def)
next
  case (Some r)
  obtain n addr where r: "r = (n, addr)" by (cases r)
  from assms(1) Some r obtain t2 p2 t3 p3 where
    s1: "(if m_begin n < addr
          then uu_balloc_add_range (rb_erase (inorder T) (node_id n))
                 (balloc_free_list st) (m_begin n) addr
          else Some (rb_erase (inorder T) (node_id n), balloc_free_list st)) = Some (t2, p2)"
    and s2: "(if m_end n > addr + sz
              then uu_balloc_add_range t2 p2 (addr + sz) (m_end n)
              else Some (t2, p2)) = Some (t3, p3)"
    and st': "st' = st\<lparr>free_ranges := t3, balloc_free_list := balloc_free_node (node_id n) p3\<rparr>"
    by (auto simp: uu_balloc_alloc_def split: option.splits prod.splits)
  have "n \<in> set (walk_from (first_ptr T from) (inorder T))"
    using alloc_scan_mem Some r by blast
  then have mem: "n \<in> set (inorder T)" by (rule walk_from_subset)
  have "distinct (map node_id (inorder T))"
    using pool_inv_distinct [OF assms(3)] by (simp add: assms(2))
  from rb_erase_member_mset [OF mem this] add_range_opt_mset [OF s1] add_range_opt_mset [OF s2]
  have "mset (map node_id t3) + mset (balloc_free_node (node_id n) p3)
      = mset (map node_id (free_ranges st)) + mset (balloc_free_list st)"
    by (simp add: balloc_free_node_def assms(2))
  then show ?thesis unfolding st' using assms(3) by (rule pool_inv_swap_free)
qed

lemma pool_inv_add_entries:
  "add_entries es st = Some st' \<Longrightarrow> pool_inv st \<Longrightarrow> pool_inv st'"
  by (induction es arbitrary: st)
     (auto split: option.splits dest: pool_inv_add_known pool_inv_add_free)

lemma pool_inv_remove_entries:
  "remove_entries es st st' \<Longrightarrow> pool_inv st \<Longrightarrow> pool_inv st'"
  by (induction rule: remove_entries.induct) (auto dest: pool_inv_remove_free)

lemma pool_inv_parse_mmap:
  assumes "balloc_parse_mmap flags entries kbegin kend init_module st st'" "pool_inv st"
  shows "pool_inv st'"
  using assms(1)
proof (cases rule: balloc_parse_mmap.cases)
  case (parse_mmap st1 st2 st3 st4 T5 st5 T6)
  have "pool_inv st1" by (rule pool_inv_add_entries [OF parse_mmap(2) assms(2)])
  then have "pool_inv st2" by (rule pool_inv_add_known [OF parse_mmap(3)])
  then have "pool_inv st3" by (rule pool_inv_add_free [OF parse_mmap(4)])
  then have "pool_inv st4" by (rule pool_inv_remove_entries [OF parse_mmap(5)])
  then have "pool_inv st5" by (rule pool_inv_remove_free [OF parse_mmap(7,6)])
  then show ?thesis by (rule pool_inv_remove_free [OF parse_mmap(9,8)])
qed

lemma reachable_pool_inv: "reachable st \<Longrightarrow> pool_inv st"
proof (induction rule: reachable.induct)
  case at_init
  show ?case by (rule pool_inv_init)
next
  case (at_setup flags entries kbegin kend init_module st)
  then show ?case
    unfolding balloc_setup_def by (rule pool_inv_parse_mmap [OF _ pool_inv_init])
next
  case (at_add_known st "from" to st')
  from at_add_known.hyps(2) at_add_known.IH show ?case by (rule pool_inv_add_known)
next
  case (at_add_free st "from" to st')
  from at_add_free.hyps(2) at_add_free.IH show ?case by (rule pool_inv_add_free)
next
  case (at_remove_known st T "from" to st')
  from at_remove_known.hyps(3,2) at_remove_known.IH show ?case by (rule pool_inv_remove_known)
next
  case (at_remove_free st T "from" to st')
  from at_remove_free.hyps(3,2) at_remove_free.IH show ?case by (rule pool_inv_remove_free)
next
  case (at_alloc_aligned st T sz align "from" to a st')
  from at_alloc_aligned.hyps(3,2) at_alloc_aligned.IH show ?case by (rule pool_inv_alloc)
next
  case (at_alloc st T sz "from" to a st')
  from at_alloc.hyps(3,2) at_alloc.IH show ?case
    unfolding balloc_alloc_def Let_def by (rule pool_inv_alloc)
next
  case (at_free st "from" to st')
  from at_free.hyps(2) at_free.IH show ?case
    unfolding balloc_free_def by (rule pool_inv_add_free)
qed

text \<open>
  C8: after \<open>balloc_setup_nodes\<close> and after every operation the allocator completes
  (\<open>add_range\<close> and \<open>remove_range\<close> on either tree, the two allocation entry points,
  \<open>balloc_free\<close>, \<open>balloc_setup\<close>), with any arguments and with the trees in any
  shape, the nodes linked into the known tree, those linked into the free tree and those
  on the free list are together exactly the 128 slots of the array: their numbers add up
  to 128 and no slot occurs twice.
\<close>

theorem pool_conservation:
  assumes "reachable st"
  shows "length (memory_map st) + length (free_ranges st) + length (balloc_free_list st) = 128
    \<and> distinct (map node_id (memory_map st) @ map node_id (free_ranges st) @ balloc_free_list st)
    \<and> set (map node_id (memory_map st)) \<union> set (map node_id (free_ranges st))
        \<union> set (balloc_free_list st) = {0 ..< 128}"
proof -
  have p: "pool_inv st" using assms by (rule reachable_pool_inv)
  have "set_mset (mset (map node_id (memory_map st)) + mset (map node_id (free_ranges st))
       + mset (balloc_free_list st)) = set_mset (mset [0 ..< BALLOC_MAX_RANGES])"
    using p by (simp only: pool_inv_def)
  then have "set (map node_id (memory_map st)) \<union> set (map node_id (free_ranges st))
        \<union> set (balloc_free_list st) = {0 ..< 128}"
    by (simp add: BALLOC_MAX_RANGES_def)
  with pool_inv_length [OF p] pool_inv_distinct [OF p] show ?thesis
    by (simp add: BALLOC_MAX_RANGES_def)
qed


theorem pool_conservation_witness:
  "\<exists>st. uu_balloc_alloc
          (Node Leaf \<lparr>node_id = 126, m_begin = 0, m_end = 40\<rparr>
             (Node Leaf \<lparr>node_id = 125, m_begin = 60, m_end = 100\<rparr> Leaf))
          10 16 1 100
          \<lparr>memory_map = [],
           free_ranges = [\<lparr>node_id = 126, m_begin = 0, m_end = 40\<rparr>,
                          \<lparr>node_id = 125, m_begin = 60, m_end = 100\<rparr>],
           balloc_free_list = 127 # rev [0 ..< 125]\<rparr> = Some (16, st)
     \<and> reachable st
     \<and> ranges (free_ranges st) = [(0, 16), (26, 40), (60, 100)]
     \<and> length (memory_map st) + length (free_ranges st) + length (balloc_free_list st) = 128
     \<and> distinct (map node_id (memory_map st) @ map node_id (free_ranges st)
          @ balloc_free_list st)"
proof -
  let ?s1 = "\<lparr>memory_map = [],
      free_ranges = [\<lparr>node_id = 127, m_begin = 0, m_end = 100\<rparr>],
      balloc_free_list = rev [0 ..< 127]\<rparr>"
  let ?T1 = "Node Leaf \<lparr>node_id = 127, m_begin = 0, m_end = 100\<rparr> Leaf"
  let ?s2 = "\<lparr>memory_map = [],
      free_ranges = [\<lparr>node_id = 126, m_begin = 0, m_end = 40\<rparr>,
                     \<lparr>node_id = 125, m_begin = 60, m_end = 100\<rparr>],
      balloc_free_list = 127 # rev [0 ..< 125]\<rparr>"
  let ?T2 = "Node Leaf \<lparr>node_id = 126, m_begin = 0, m_end = 40\<rparr>
      (Node Leaf \<lparr>node_id = 125, m_begin = 60, m_end = 100\<rparr> Leaf)"
  have a1: "add_free 0 100 (balloc_setup_nodes boot_state) = Some ?s1" by code_simp
  have a2: "remove_free ?T1 40 60 ?s1 = Some ?s2" by code_simp
  have "map_option (\<lambda>(a, st). (a, ranges (free_ranges st))) (uu_balloc_alloc ?T2 10 16 1 100 ?s2)
      = Some (16, [(0, 16), (26, 40), (60, 100)])"
    by code_simp
  then obtain st where st: "uu_balloc_alloc ?T2 10 16 1 100 ?s2 = Some (16, st)"
    and fr: "ranges (free_ranges st) = [(0, 16), (26, 40), (60, 100)]"
    by auto
  have r1: "reachable ?s1" by (rule at_add_free [OF at_init a1])
  have r2: "reachable ?s2" by (rule at_remove_free [OF r1 _ a2]) simp
  have r3: "reachable st" by (rule at_alloc_aligned [OF r2 _ st]) simp
  with pool_conservation [OF r3] st fr show ?thesis by blast
qed

subsection \<open>The order by begin in every reachable state\<close>

text \<open>
  Whatever the arguments of the calls were, both trees stay ordered by \<open>begin\<close> along
  the traversal, so the first loop of \<open>__balloc_add_range\<close> stops, in a tree of any
  shape, at the link where the model inserts the new node (\<open>link_descent_position\<close>,
  \<open>rb_link_at_inorder\<close>).
\<close>

lemma rb_erase_begin_order:
  "sorted_wrt (\<lambda>a b. m_begin a \<le> m_begin b) t \<Longrightarrow>
     sorted_wrt (\<lambda>a b. m_begin a \<le> m_begin b) (rb_erase t i)"
  by (simp add: rb_erase_def sorted_wrt_filter)

lemma add_range_opt_begin_order:
  "(if c then uu_balloc_add_range t p from to else Some (t, p)) = Some (t', p') \<Longrightarrow>
     sorted_wrt (\<lambda>a b. m_begin a \<le> m_begin b) t \<Longrightarrow>
     sorted_wrt (\<lambda>a b. m_begin a \<le> m_begin b) t'"
  by (auto dest: add_range_begin_order split: if_splits)

lemma remove_loop_begin_order:
  assumes "remove_loop from to ptr t p = Some y"
  shows "sorted_wrt (\<lambda>a b. m_begin a \<le> m_begin b) t \<longrightarrow>
       sorted_wrt (\<lambda>a b. m_begin a \<le> m_begin b) (fst y)"
proof (rule remove_loop.raw_induct [OF _ assms])
  fix rl "from" to ptr t p y
  assume 1: "\<And>from to ptr t p y. rl from to ptr t p = Some y \<Longrightarrow>
      sorted_wrt (\<lambda>a b. m_begin a \<le> m_begin b) t \<longrightarrow>
       sorted_wrt (\<lambda>a b. m_begin a \<le> m_begin b) (fst y)"
    "(case ptr of None \<Rightarrow> Some (t, p)
      | Some i \<Rightarrow>
          case node_of t i of None \<Rightarrow> None
          | Some n \<Rightarrow>
              if m_begin n < to
              then case if m_begin n < from
                        then uu_balloc_add_range (rb_erase t i) p (m_begin n) from
                        else Some (rb_erase t i, p) of
                   None \<Rightarrow> None
                   | Some (t2, p2) \<Rightarrow>
                       case if to < m_end n
                            then uu_balloc_add_range t2 p2 to (m_end n)
                            else Some (t2, p2) of
                       None \<Rightarrow> None
                       | Some (t3, p3) \<Rightarrow>
                           rl from to (rb_next t i) t3 (balloc_free_node i p3)
              else Some (t, p)) = Some y"
  show "sorted_wrt (\<lambda>a b. m_begin a \<le> m_begin b) t \<longrightarrow>
       sorted_wrt (\<lambda>a b. m_begin a \<le> m_begin b) (fst y)"
  proof
    assume s: "sorted_wrt (\<lambda>a b. m_begin a \<le> m_begin b) t"
    show "sorted_wrt (\<lambda>a b. m_begin a \<le> m_begin b) (fst y)"
    proof (cases ptr)
      case None
      with 1(2) s show ?thesis by auto
    next
      case (Some i)
      with 1(2) obtain n where n: "node_of t i = Some n"
        by (cases "node_of t i") auto
      show ?thesis
      proof (cases "m_begin n < to")
        case False
        with 1(2) Some n s show ?thesis by auto
      next
        case True
        from 1(2) Some n True obtain t2 p2 t3 p3 where
          s1: "(if m_begin n < from
                then uu_balloc_add_range (rb_erase t i) p (m_begin n) from
                else Some (rb_erase t i, p)) = Some (t2, p2)" and
          s2: "(if to < m_end n then uu_balloc_add_range t2 p2 to (m_end n)
                else Some (t2, p2)) = Some (t3, p3)" and
          rec: "rl from to (rb_next t i) t3 (balloc_free_node i p3) = Some y"
          by (simp split: option.splits prod.splits)
        have "sorted_wrt (\<lambda>a b. m_begin a \<le> m_begin b) t2"
          by (rule add_range_opt_begin_order [OF s1 rb_erase_begin_order [OF s]])
        then have "sorted_wrt (\<lambda>a b. m_begin a \<le> m_begin b) t3"
          by (rule add_range_opt_begin_order [OF s2])
        with 1(1) [OF rec] show ?thesis by simp
      qed
    qed
  qed
qed

lemma begin_ordered_add_known:
  "add_known from to st = Some st' \<Longrightarrow> begin_ordered st \<Longrightarrow> begin_ordered st'"
  by (auto simp: add_known_def begin_ordered_def split: option.splits
        dest: add_range_begin_order)

lemma begin_ordered_add_free:
  "add_free from to st = Some st' \<Longrightarrow> begin_ordered st \<Longrightarrow> begin_ordered st'"
  by (auto simp: add_free_def begin_ordered_def split: option.splits
        dest: add_range_begin_order)

lemma begin_ordered_remove_known:
  assumes "remove_known T from to st = Some st'" "inorder T = memory_map st" "begin_ordered st"
  shows "begin_ordered st'"
proof -
  from assms(1) obtain t p where
    r: "remove_loop from to (first_ptr T from) (inorder T) (balloc_free_list st) = Some (t, p)"
    and st': "st' = st\<lparr>memory_map := t, balloc_free_list := p\<rparr>"
    by (auto simp: remove_known_def uu_balloc_remove_range_on_def split: option.splits)
  from remove_loop_begin_order [OF r] assms(2,3) show ?thesis
    by (simp add: st' begin_ordered_def)
qed

lemma begin_ordered_remove_free:
  assumes "remove_free T from to st = Some st'" "inorder T = free_ranges st" "begin_ordered st"
  shows "begin_ordered st'"
proof -
  from assms(1) obtain t p where
    r: "remove_loop from to (first_ptr T from) (inorder T) (balloc_free_list st) = Some (t, p)"
    and st': "st' = st\<lparr>free_ranges := t, balloc_free_list := p\<rparr>"
    by (auto simp: remove_free_def uu_balloc_remove_range_on_def split: option.splits)
  from remove_loop_begin_order [OF r] assms(2,3) show ?thesis
    by (simp add: st' begin_ordered_def)
qed

lemma begin_ordered_alloc:
  assumes "uu_balloc_alloc T sz align from to st = Some (a, st')"
    "inorder T = free_ranges st" "begin_ordered st"
  shows "begin_ordered st'"
proof (cases "alloc_scan sz align from to (walk_from (first_ptr T from) (inorder T))")
  case None
  with assms show ?thesis by (simp add: uu_balloc_alloc_def)
next
  case (Some r)
  obtain n addr where r: "r = (n, addr)" by (cases r)
  from assms(1) Some r obtain t2 p2 t3 p3 where
    s1: "(if m_begin n < addr
          then uu_balloc_add_range (rb_erase (inorder T) (node_id n))
                 (balloc_free_list st) (m_begin n) addr
          else Some (rb_erase (inorder T) (node_id n), balloc_free_list st)) = Some (t2, p2)"
    and s2: "(if m_end n > addr + sz
              then uu_balloc_add_range t2 p2 (addr + sz) (m_end n)
              else Some (t2, p2)) = Some (t3, p3)"
    and st': "st' = st\<lparr>free_ranges := t3, balloc_free_list := balloc_free_node (node_id n) p3\<rparr>"
    by (auto simp: uu_balloc_alloc_def split: option.splits prod.splits)
  have "sorted_wrt (\<lambda>a b. m_begin a \<le> m_begin b) (inorder T)"
    using assms(2,3) by (simp add: begin_ordered_def)
  then have "sorted_wrt (\<lambda>a b. m_begin a \<le> m_begin b) t2"
    by (intro add_range_opt_begin_order [OF s1] rb_erase_begin_order)
  then have "sorted_wrt (\<lambda>a b. m_begin a \<le> m_begin b) t3"
    by (rule add_range_opt_begin_order [OF s2])
  then show ?thesis using assms(3) by (simp add: st' begin_ordered_def)
qed

lemma begin_ordered_add_entries:
  "add_entries es st = Some st' \<Longrightarrow> begin_ordered st \<Longrightarrow> begin_ordered st'"
  by (induction es arbitrary: st)
     (auto split: option.splits dest: begin_ordered_add_known begin_ordered_add_free)

lemma begin_ordered_remove_entries:
  "remove_entries es st st' \<Longrightarrow> begin_ordered st \<Longrightarrow> begin_ordered st'"
  by (induction rule: remove_entries.induct) (auto dest: begin_ordered_remove_free)

lemma begin_ordered_parse_mmap:
  assumes "balloc_parse_mmap flags entries kbegin kend init_module st st'" "begin_ordered st"
  shows "begin_ordered st'"
  using assms(1)
proof (cases rule: balloc_parse_mmap.cases)
  case (parse_mmap st1 st2 st3 st4 T5 st5 T6)
  have "begin_ordered st1" by (rule begin_ordered_add_entries [OF parse_mmap(2) assms(2)])
  then have "begin_ordered st2" by (rule begin_ordered_add_known [OF parse_mmap(3)])
  then have "begin_ordered st3" by (rule begin_ordered_add_free [OF parse_mmap(4)])
  then have "begin_ordered st4" by (rule begin_ordered_remove_entries [OF parse_mmap(5)])
  then have "begin_ordered st5" by (rule begin_ordered_remove_free [OF parse_mmap(7,6)])
  then show ?thesis by (rule begin_ordered_remove_free [OF parse_mmap(9,8)])
qed

lemma begin_ordered_init: "begin_ordered (balloc_setup_nodes boot_state)"
  by (simp add: begin_ordered_def balloc_setup_nodes_def boot_state_def)

lemma reachable_begin_ordered: "reachable st \<Longrightarrow> begin_ordered st"
proof (induction rule: reachable.induct)
  case at_init
  show ?case by (rule begin_ordered_init)
next
  case (at_setup flags entries kbegin kend init_module st)
  then show ?case
    unfolding balloc_setup_def by (rule begin_ordered_parse_mmap [OF _ begin_ordered_init])
next
  case (at_add_known st "from" to st')
  from at_add_known.hyps(2) at_add_known.IH show ?case by (rule begin_ordered_add_known)
next
  case (at_add_free st "from" to st')
  from at_add_free.hyps(2) at_add_free.IH show ?case by (rule begin_ordered_add_free)
next
  case (at_remove_known st T "from" to st')
  from at_remove_known.hyps(3,2) at_remove_known.IH show ?case
    by (rule begin_ordered_remove_known)
next
  case (at_remove_free st T "from" to st')
  from at_remove_free.hyps(3,2) at_remove_free.IH show ?case
    by (rule begin_ordered_remove_free)
next
  case (at_alloc_aligned st T sz align "from" to a st')
  from at_alloc_aligned.hyps(3,2) at_alloc_aligned.IH show ?case by (rule begin_ordered_alloc)
next
  case (at_alloc st T sz "from" to a st')
  from at_alloc.hyps(3,2) at_alloc.IH show ?case
    unfolding balloc_alloc_def Let_def by (rule begin_ordered_alloc)
next
  case (at_free st "from" to st')
  from at_free.hyps(2) at_free.IH show ?case
    unfolding balloc_free_def by (rule begin_ordered_add_free)
qed

subsection \<open>Every call in a reachable state returns while slots are free\<close>

text \<open>
  Whatever the arguments of the calls were, a node of either tree ends below the begin of
  its successor. On such a tree the removal loop never follows a pointer to a node that
  has left the tree, so the only halt of an operation is the empty pool.
\<close>

lemma separated_Nil [simp]: "separated []"
  by (simp add: separated_def)

lemma separated_Cons:
  "separated (n # t) \<longleftrightarrow>
     (\<forall>b\<in>set t. m_begin n \<le> m_begin b) \<and> (t \<noteq> [] \<longrightarrow> m_end n < m_begin (hd t))
     \<and> separated t"
  by (auto simp: separated_def successively_Cons)

lemma separated_append:
  "separated (A @ B) \<longleftrightarrow>
     separated A \<and> separated B \<and> (\<forall>a\<in>set A. \<forall>b\<in>set B. m_begin a \<le> m_begin b)
     \<and> (A \<noteq> [] \<longrightarrow> B \<noteq> [] \<longrightarrow> m_end (last A) < m_begin (hd B))"
  by (auto simp: separated_def sorted_wrt_append successively_append_iff)

lemma separated_begin_order:
  "separated t \<Longrightarrow> sorted_wrt (\<lambda>a b. m_begin a \<le> m_begin b) t"
  by (simp add: separated_def)

lemma separated_filter: "separated t \<Longrightarrow> separated (filter P t)"
proof (induction t)
  case Nil
  then show ?case by simp
next
  case (Cons x t)
  then have IH: "separated (filter P t)" and x: "\<forall>b\<in>set t. m_begin x \<le> m_begin b"
    and h: "t \<noteq> [] \<longrightarrow> m_end x < m_begin (hd t)" and st: "separated t"
    by (simp_all add: separated_Cons)
  show ?case
  proof (cases "P x")
    case False
    then show ?thesis using IH by simp
  next
    case True
    have "m_end x < m_begin (hd (filter P t))" if ne: "filter P t \<noteq> []"
    proof -
      have "t \<noteq> []" using ne by auto
      have "hd (filter P t) \<in> set t" using ne hd_in_set [OF ne] by auto
      moreover have "\<forall>b\<in>set t. m_begin (hd t) \<le> m_begin b"
        using st \<open>t \<noteq> []\<close> by (cases t) (auto simp: separated_Cons)
      ultimately have "m_begin (hd t) \<le> m_begin (hd (filter P t))" by blast
      with h \<open>t \<noteq> []\<close> show ?thesis by auto
    qed
    then show ?thesis using True IH x by (auto simp: separated_Cons)
  qed
qed

lemma absorb_separated:
  assumes s: "separated (L @ R)"
    and L: "\<forall>n\<in>set L. m_begin n < from" and R: "\<forall>n\<in>set R. \<not> m_begin n < from"
    and a: "absorb_prev L \<lparr>node_id = i, m_begin = from, m_end = to\<rparr> p1 = (L1, new1, p2)"
    and b: "absorb_next R new1 p2 = (R1, new2, p3)"
  shows "separated (L1 @ new2 # R1)"
proof -
  have 1: "separated L1 \<and> (\<forall>a\<in>set L1. m_begin a \<le> m_begin new1)
      \<and> (L1 \<noteq> [] \<longrightarrow> m_end (last L1) < m_begin new1)
      \<and> m_begin new1 \<le> from"
    using s L a
    by (cases L rule: rev_cases)
       (fastforce simp: absorb_prev_def separated_append separated_Cons split: if_splits)+
  have 2: "separated R1 \<and> set R1 \<subseteq> set R \<and> m_begin new2 = m_begin new1
      \<and> (R1 \<noteq> [] \<longrightarrow> m_end new2 < m_begin (hd R1))"
    using s b
    by (cases R) (auto simp: absorb_next_def separated_append separated_Cons not_le
          split: if_splits)
  have 3: "\<forall>b\<in>set R1. m_begin new2 \<le> m_begin b"
  proof
    fix b assume "b \<in> set R1"
    then have "\<not> m_begin b < from" using 2 R by auto
    then show "m_begin new2 \<le> m_begin b" using 1 2 by auto
  qed
  have 4: "\<forall>a\<in>set L1. \<forall>b\<in>set R1. m_begin a \<le> m_begin b"
    using 1 2 3 by fastforce
  show ?thesis using 1 2 3 4 by (auto simp: separated_append separated_Cons)
qed

lemma link_split_any:
  assumes "sorted_wrt (\<lambda>a b. m_begin a \<le> m_begin b) t"
  shows "\<forall>n\<in>set (takeWhile (\<lambda>n. m_begin n < from) t). m_begin n < from"
    and "\<forall>n\<in>set (dropWhile (\<lambda>n. m_begin n < from) t). \<not> m_begin n < from"
proof -
  let ?P = "\<lambda>n. m_begin n < from"
  let ?L = "takeWhile ?P t" and ?R = "dropWhile ?P t"
  have s: "sorted_wrt (\<lambda>a b. m_begin a \<le> m_begin b) (?L @ ?R)" using assms by simp
  show "\<forall>n\<in>set ?L. m_begin n < from" by (auto dest: set_takeWhileD)
  show "\<forall>n\<in>set ?R. \<not> m_begin n < from"
  proof (cases ?R)
    case Nil then show ?thesis by (simp del: dropWhile_eq_Nil_conv)
  next
    case (Cons r rs)
    have "\<not> m_begin r < from" using hd_dropWhile [of ?P t] Cons by auto
    moreover have "\<forall>b\<in>set rs. m_begin r \<le> m_begin b"
      using s unfolding Cons by (simp add: sorted_wrt_append)
    ultimately show ?thesis using Cons by fastforce
  qed
qed

lemma add_range_separated:
  assumes "uu_balloc_add_range t p from to = Some (t', p')" "separated t"
  shows "separated t'"
proof -
  let ?P = "\<lambda>n. m_begin n < from"
  let ?L = "takeWhile ?P t" and ?R = "dropWhile ?P t"
  have s: "separated (?L @ ?R)" using assms(2) by simp
  note LR = link_split_any [OF separated_begin_order [OF assms(2)], of "from"]
  from assms(1) obtain i p1 L1 new1 p2 R1 new2 where
    a: "absorb_prev ?L \<lparr>node_id = i, m_begin = from, m_end = to\<rparr> p1 = (L1, new1, p2)" and
    b: "absorb_next ?R new1 p2 = (R1, new2, p')" and t': "t' = L1 @ new2 # R1"
    unfolding uu_balloc_add_range_def
    by (cases p) (auto split: prod.splits)
  show ?thesis unfolding t' by (rule absorb_separated [OF s LR a b])
qed

lemma take_drop_prefix:
  assumes "\<forall>b\<in>set B. \<not> P b"
  shows "takeWhile P (A @ B) = takeWhile P A" "dropWhile P (A @ B) = dropWhile P A @ B"
proof -
  have B: "takeWhile P B = []" "dropWhile P B = B"
    using assms by (cases B; simp)+
  show "takeWhile P (A @ B) = takeWhile P A" using B by (induction A) auto
  show "dropWhile P (A @ B) = dropWhile P A @ B" using B by (induction A) auto
qed

text \<open>
  An insertion in front of a suffix that begins above the inserted range leaves the
  suffix alone, and it returns whenever a slot is free.
\<close>

lemma add_range_suffix:
  assumes s: "separated (A @ B)" and B1: "\<forall>b\<in>set B. \<not> m_begin b < from"
    and B2: "B \<noteq> [] \<longrightarrow> to < m_begin (hd B)"
  shows "\<exists>A' p'. uu_balloc_add_range (A @ B) (i # p) from to = Some (A' @ B, p')
           \<and> length p \<le> length p'"
proof -
  let ?P = "\<lambda>n. m_begin n < from"
  let ?new = "\<lparr>node_id = i, m_begin = from, m_end = to\<rparr>"
  note td = take_drop_prefix [of B ?P A, OF B1]
  obtain L1 new1 p2 where a: "absorb_prev (takeWhile ?P A) ?new p = (L1, new1, p2)"
    by (cases "absorb_prev (takeWhile ?P A) ?new p") auto
  have lp: "length p \<le> length p2"
    using a by (auto simp: absorb_prev_def balloc_free_node_def split: if_splits)
  obtain R1 new2 p3 where b: "absorb_next (dropWhile ?P A @ B) new1 p2 = (R1, new2, p3)"
    by (cases "absorb_next (dropWhile ?P A @ B) new1 p2") auto
  have "\<exists>R0. R1 = R0 @ B \<and> length p2 \<le> length p3"
  proof (cases "dropWhile ?P A")
    case (Cons d D)
    then show ?thesis
      using b by (auto simp: absorb_next_def balloc_free_node_def split: if_splits)
  next
    case Nil
    then have tA: "takeWhile ?P A = A" by (simp add: takeWhile_eq_all_conv)
    show ?thesis
    proof (cases B)
      case Nil
      then show ?thesis using b \<open>dropWhile ?P A = []\<close> by (simp add: absorb_next_def)
    next
      case (Cons q B0)
      have tq: "to < m_begin q" using B2 Cons by simp
      have "m_end new1 < m_begin q"
      proof (cases "A = []")
        case True
        then show ?thesis using a tq by (auto simp: absorb_prev_def)
      next
        case False
        then have "m_end (last A) < m_begin q"
          using s Cons by (simp add: separated_append)
        then show ?thesis
          using a tq unfolding tA by (auto simp: absorb_prev_def split: if_splits)
      qed
      then have "\<not> m_begin q \<le> m_end new1" by simp
      then have "R1 = [] @ B \<and> p3 = p2"
        using b \<open>dropWhile ?P A = []\<close> Cons by (auto simp: absorb_next_def)
      then show ?thesis by blast
    qed
  qed
  then obtain R0 where R0: "R1 = R0 @ B" and lp3: "length p2 \<le> length p3" by blast
  have "uu_balloc_add_range (A @ B) (i # p) from to = Some ((L1 @ new2 # R0) @ B, p3)"
    by (simp add: uu_balloc_add_range_def td a b R0)
  with lp lp3 show ?thesis by (intro exI [of _ "L1 @ new2 # R0"] exI [of _ p3]) simp
qed

lemma separated_tail_above:
  assumes "separated (A @ n # R)"
  shows "\<forall>b\<in>set R. m_end n < m_begin b" "\<forall>b\<in>set R. m_begin n \<le> m_begin b"
    "separated (A @ R)"
proof -
  have sn: "separated (n # R)" using assms by (simp add: separated_append)
  show b: "\<forall>b\<in>set R. m_begin n \<le> m_begin b" using sn by (simp add: separated_Cons)
  show "\<forall>b\<in>set R. m_end n < m_begin b"
  proof (cases R)
    case Nil then show ?thesis by simp
  next
    case (Cons q R0)
    have "m_end n < m_begin q" using sn Cons by (simp add: separated_Cons)
    moreover have "\<forall>b\<in>set R0. m_begin q \<le> m_begin b"
      using sn Cons by (simp add: separated_Cons)
    ultimately show ?thesis using Cons by fastforce
  qed
  show "separated (A @ R)"
  proof -
    have "separated A" "separated R" using assms sn by (simp_all add: separated_append separated_Cons)
    moreover have "\<forall>a\<in>set A. \<forall>b\<in>set R. m_begin a \<le> m_begin b"
      using assms by (auto simp: separated_append)
    moreover have "m_end (last A) < m_begin (hd R)" if "A \<noteq> []" "R \<noteq> []"
    proof -
      have "m_end (last A) < m_begin n" using assms that by (simp add: separated_append)
      moreover have "m_begin n \<le> m_begin (hd R)" using b that by simp
      ultimately show ?thesis by simp
    qed
    ultimately show ?thesis by (simp add: separated_append)
  qed
qed

text \<open>
  The removal loop once it is past its first node: every node it still visits begins
  above \<open>from\<close>, so at most the part above \<open>to\<close> is re-inserted, and the successor it
  has captured stays linked.
\<close>

lemma rest_loop_returns:
  assumes "separated (A @ R)" "distinct (map node_id (A @ R) @ p)"
    "\<forall>n\<in>set R. from < m_begin n" "p \<noteq> []"
  shows "\<exists>y. remove_loop from to (ptr_of R) (A @ R) p = Some y"
  using assms
proof (induction R arbitrary: A p)
  case Nil
  then show ?case by (simp add: ptr_of_def)
next
  case (Cons n R)
  have d: "distinct (map node_id (A @ n # R))" using Cons.prems(2) by auto
  have pn: "ptr_of (n # R) = Some (node_id n)" by (simp add: ptr_of_def)
  note tl = separated_tail_above [OF Cons.prems(1)]
  show ?case
  proof (cases "m_begin n < to")
    case False
    show ?thesis unfolding pn remove_loop_stop [OF node_of_mid [OF d] False] by simp
  next
    case True
    have nf: "\<not> m_begin n < from" using Cons.prems(3) by auto
    note step = remove_loop_step [OF node_of_mid [OF d] True, of "from" p,
        unfolded rb_erase_mid [OF d] rb_next_mid [OF d]]
    have Rf: "\<forall>n\<in>set R. from < m_begin n" using Cons.prems(3) by simp
    show ?thesis
    proof (cases "to < m_end n")
      case False
      have "distinct (map node_id (A @ R) @ node_id n # p)" using Cons.prems(2) by auto
      from Cons.IH [OF tl(3) this Rf] show ?thesis
        unfolding pn step using nf False by (simp add: balloc_free_node_def)
    next
      case right: True
      obtain i p1 where p: "p = i # p1" using Cons.prems(4) by (cases p) auto
      have B1: "\<forall>b\<in>set R. \<not> m_begin b < to" using tl(1) right by fastforce
      have B2: "R \<noteq> [] \<longrightarrow> m_end n < m_begin (hd R)" using tl(1) by auto
      from add_range_suffix [OF tl(3) B1 B2, of i p1] obtain A' p' where
        ar: "uu_balloc_add_range (A @ R) p to (m_end n) = Some (A' @ R, p')"
        unfolding p by blast
      have sep: "separated (A' @ R)" by (rule add_range_separated [OF ar tl(3)])
      have "mset (map node_id (A' @ R)) + mset p' = mset (map node_id (A @ R)) + mset p"
        by (rule add_range_mset [OF ar])
      then have "mset (map node_id (A' @ R)) + mset (node_id n # p')
          = mset (map node_id (A @ n # R)) + mset p"
        by simp
      then have dd: "distinct (map node_id (A' @ R) @ node_id n # p')"
        using distinct_mset_append Cons.prems(2) by blast
      from Cons.IH [OF sep dd Rf] show ?thesis
        unfolding pn step using nf right by (simp add: ar balloc_free_node_def)
    qed
  qed
qed

text \<open>The first iteration: the node the descent has found ends above \<open>from\<close>.\<close>

lemma first_loop_returns:
  assumes s: "separated (A @ n # R)" and d0: "distinct (map node_id (A @ n # R) @ p)"
    and fn: "from < m_end n" and lp: "2 \<le> length p"
  shows "\<exists>y. remove_loop from to (Some (node_id n)) (A @ n # R) p = Some y"
proof -
  have d: "distinct (map node_id (A @ n # R))" using d0 by auto
  note tl = separated_tail_above [OF s]
  have Rf: "\<forall>b\<in>set R. from < m_begin b" using tl(1) fn by fastforce
  show ?thesis
  proof (cases "m_begin n < to")
    case False
    show ?thesis unfolding remove_loop_stop [OF node_of_mid [OF d] False] by simp
  next
    case True
    note step = remove_loop_step [OF node_of_mid [OF d] True, of "from" p,
        unfolded rb_erase_mid [OF d] rb_next_mid [OF d]]
    text \<open>The part below \<open>from\<close>.\<close>
    have "\<exists>A1 q. (if m_begin n < from
              then uu_balloc_add_range (A @ R) p (m_begin n) from
              else Some (A @ R, p)) = Some (A1 @ R, q)
          \<and> 1 \<le> length q \<and> separated (A1 @ R)
          \<and> mset (map node_id (A1 @ R)) + mset q = mset (map node_id (A @ R)) + mset p"
    proof (cases "m_begin n < from")
      case False
      then show ?thesis using lp tl(3) by (intro exI [of _ A] exI [of _ p]) simp
    next
      case left: True
      obtain i p1 where p: "p = i # p1" and l1: "1 \<le> length p1"
        using lp by (cases p) auto
      have B1: "\<forall>b\<in>set R. \<not> m_begin b < m_begin n" using tl(2) by fastforce
      have B2: "R \<noteq> [] \<longrightarrow> from < m_begin (hd R)" using Rf by auto
      from add_range_suffix [OF tl(3) B1 B2, of i p1] obtain A1 q where
        ar: "uu_balloc_add_range (A @ R) p (m_begin n) from = Some (A1 @ R, q)"
        and lq: "length p1 \<le> length q"
        unfolding p by blast
      have "separated (A1 @ R)" by (rule add_range_separated [OF ar tl(3)])
      moreover have "mset (map node_id (A1 @ R)) + mset q
          = mset (map node_id (A @ R)) + mset p"
        by (rule add_range_mset [OF ar])
      ultimately show ?thesis
        using left ar lq l1 by (intro exI [of _ A1] exI [of _ q]) simp
    qed
    then obtain A1 q where
      s1: "(if m_begin n < from
              then uu_balloc_add_range (A @ R) p (m_begin n) from
              else Some (A @ R, p)) = Some (A1 @ R, q)"
      and lq: "1 \<le> length q" and sep1: "separated (A1 @ R)"
      and m1: "mset (map node_id (A1 @ R)) + mset q = mset (map node_id (A @ R)) + mset p"
      by blast
    text \<open>The part from \<open>to\<close> on.\<close>
    have "\<exists>A2 q2. (if to < m_end n
              then uu_balloc_add_range (A1 @ R) q to (m_end n)
              else Some (A1 @ R, q)) = Some (A2 @ R, q2)
          \<and> separated (A2 @ R)
          \<and> mset (map node_id (A2 @ R)) + mset q2 = mset (map node_id (A1 @ R)) + mset q"
    proof (cases "to < m_end n")
      case False
      then show ?thesis using sep1 by (intro exI [of _ A1] exI [of _ q]) simp
    next
      case right: True
      obtain j q1 where q: "q = j # q1" using lq by (cases q) auto
      have B1: "\<forall>b\<in>set R. \<not> m_begin b < to" using tl(1) right by fastforce
      have B2: "R \<noteq> [] \<longrightarrow> m_end n < m_begin (hd R)" using tl(1) by auto
      from add_range_suffix [OF sep1 B1 B2, of j q1] obtain A2 q2 where
        ar: "uu_balloc_add_range (A1 @ R) q to (m_end n) = Some (A2 @ R, q2)"
        unfolding q by blast
      have "separated (A2 @ R)" by (rule add_range_separated [OF ar sep1])
      moreover have "mset (map node_id (A2 @ R)) + mset q2
          = mset (map node_id (A1 @ R)) + mset q"
        by (rule add_range_mset [OF ar])
      ultimately show ?thesis
        using right ar by (intro exI [of _ A2] exI [of _ q2]) simp
    qed
    then obtain A2 q2 where
      s2: "(if to < m_end n
              then uu_balloc_add_range (A1 @ R) q to (m_end n)
              else Some (A1 @ R, q)) = Some (A2 @ R, q2)"
      and sep2: "separated (A2 @ R)"
      and m2: "mset (map node_id (A2 @ R)) + mset q2 = mset (map node_id (A1 @ R)) + mset q"
      by blast
    have "mset (map node_id (A2 @ R)) + mset (node_id n # q2)
        = mset (map node_id (A @ n # R)) + mset p"
      using m1 m2 by simp
    then have dd: "distinct (map node_id (A2 @ R) @ node_id n # q2)"
      using distinct_mset_append d0 by blast
    have "\<exists>y. remove_loop from to (ptr_of R) (A2 @ R) (node_id n # q2) = Some y"
      by (rule rest_loop_returns [OF sep2 dd Rf]) simp
    then show ?thesis
      unfolding step by (simp add: s1 s2 balloc_free_node_def)
  qed
qed

text \<open>The descent ends at a node of the tree that ends above \<open>from\<close>, or at null.\<close>

lemma first_descent_mem:
  "first_descent T from ptr = Some n \<Longrightarrow>
     ptr = Some n \<or> (n \<in> set (inorder T) \<and> from < m_end n)"
proof (induction T arbitrary: ptr)
  case Leaf
  then show ?case by simp
next
  case (Node l x r)
  show ?case
  proof (cases "from < m_end x")
    case True
    with Node.prems have "first_descent l from (Some x) = Some n" by simp
    from Node.IH(1) [OF this] True show ?thesis by auto
  next
    case False
    with Node.prems have "first_descent r from ptr = Some n" by simp
    from Node.IH(2) [OF this] show ?thesis by auto
  qed
qed

text \<open>
  On a tree of any shape that is ordered by \<open>begin\<close> and separated,
  \<open>__balloc_remove_range\<close> with any arguments returns whenever two slots are free: the
  loop ends, and it never follows a pointer to a node that has left the tree.
\<close>

lemma remove_range_on_returns:
  assumes "separated (inorder T)" "distinct (map node_id (inorder T) @ p)" "2 \<le> length p"
  shows "\<exists>y. uu_balloc_remove_range_on T p from to = Some y"
proof (cases "first_descent T from None")
  case None
  then show ?thesis by (simp add: uu_balloc_remove_range_on_def first_ptr_def)
next
  case (Some n)
  from first_descent_mem [OF Some] have n: "n \<in> set (inorder T)" "from < m_end n" by auto
  from split_list [OF n(1)] obtain A R where t: "inorder T = A @ n # R" by blast
  from first_loop_returns [OF assms(1) [unfolded t] assms(2) [unfolded t] n(2) assms(3)]
  show ?thesis
    by (simp add: uu_balloc_remove_range_on_def first_ptr_def Some t)
qed

lemma add_range_returns:
  "\<exists>t' p'. uu_balloc_add_range t (i # p) from to = Some (t', p') \<and> length p \<le> length p'"
proof -
  let ?P = "\<lambda>n. m_begin n < from"
  obtain L1 new1 p2 where
    a: "absorb_prev (takeWhile ?P t) \<lparr>node_id = i, m_begin = from, m_end = to\<rparr> p = (L1, new1, p2)"
    by (cases "absorb_prev (takeWhile ?P t) \<lparr>node_id = i, m_begin = from, m_end = to\<rparr> p") auto
  obtain R1 new2 p3 where b: "absorb_next (dropWhile ?P t) new1 p2 = (R1, new2, p3)"
    by (cases "absorb_next (dropWhile ?P t) new1 p2") auto
  have "length p \<le> length p2"
    using a by (auto simp: absorb_prev_def balloc_free_node_def split: if_splits)
  moreover have "length p2 \<le> length p3"
    using b by (auto simp: absorb_next_def balloc_free_node_def split: if_splits list.splits)
  ultimately show ?thesis by (simp add: uu_balloc_add_range_def a b)
qed

lemma add_range_opt_returns:
  "1 \<le> length p \<Longrightarrow>
     \<exists>t' p'. (if c then uu_balloc_add_range t p from to else Some (t, p)) = Some (t', p')
       \<and> length p \<le> Suc (length p')"
proof (cases c)
  case False
  then show ?thesis by simp
next
  case True
  assume "1 \<le> length p"
  then obtain i p1 where p: "p = i # p1" by (cases p) auto
  from add_range_returns [of t i p1 "from" to] True show ?thesis by (auto simp: p)
qed

text \<open>\<open>__balloc_alloc\<close> returns whenever two slots are free.\<close>

lemma alloc_returns:
  assumes "2 \<le> length (balloc_free_list st)"
  shows "\<exists>r. uu_balloc_alloc T sz align from to st = Some r"
proof (cases "alloc_scan sz align from to (walk_from (first_ptr T from) (inorder T))")
  case None
  then show ?thesis by (simp add: uu_balloc_alloc_def)
next
  case (Some r)
  obtain n addr where r: "r = (n, addr)" by (cases r)
  have "1 \<le> length (balloc_free_list st)" using assms by simp
  from add_range_opt_returns [OF this, of "m_begin n < addr"
      "rb_erase (inorder T) (node_id n)" "m_begin n" addr]
  obtain t2 p2 where
    s1: "(if m_begin n < addr
          then uu_balloc_add_range (rb_erase (inorder T) (node_id n))
                 (balloc_free_list st) (m_begin n) addr
          else Some (rb_erase (inorder T) (node_id n), balloc_free_list st)) = Some (t2, p2)"
    and l2: "length (balloc_free_list st) \<le> Suc (length p2)"
    by blast
  have "1 \<le> length p2" using l2 assms by simp
  from add_range_opt_returns [OF this, of "m_end n > addr + sz" t2 "addr + sz" "m_end n"]
  obtain t3 p3 where
    s2: "(if m_end n > addr + sz
          then uu_balloc_add_range t2 p2 (addr + sz) (m_end n)
          else Some (t2, p2)) = Some (t3, p3)"
    by blast
  show ?thesis by (simp add: uu_balloc_alloc_def Some r s1 s2)
qed

lemma rb_erase_separated: "separated t \<Longrightarrow> separated (rb_erase t i)"
  by (simp add: rb_erase_def separated_filter)

lemma add_range_opt_separated:
  "(if c then uu_balloc_add_range t p from to else Some (t, p)) = Some (t', p') \<Longrightarrow>
     separated t \<Longrightarrow> separated t'"
  by (auto dest: add_range_separated split: if_splits)

lemma remove_loop_separated:
  assumes "remove_loop from to ptr t p = Some y"
  shows "separated t \<longrightarrow> separated (fst y)"
proof (rule remove_loop.raw_induct [OF _ assms])
  fix rl "from" to ptr t p y
  assume 1: "\<And>from to ptr t p y. rl from to ptr t p = Some y \<Longrightarrow>
      separated t \<longrightarrow> separated (fst y)"
    "(case ptr of None \<Rightarrow> Some (t, p)
      | Some i \<Rightarrow>
          case node_of t i of None \<Rightarrow> None
          | Some n \<Rightarrow>
              if m_begin n < to
              then case if m_begin n < from
                        then uu_balloc_add_range (rb_erase t i) p (m_begin n) from
                        else Some (rb_erase t i, p) of
                   None \<Rightarrow> None
                   | Some (t2, p2) \<Rightarrow>
                       case if to < m_end n
                            then uu_balloc_add_range t2 p2 to (m_end n)
                            else Some (t2, p2) of
                       None \<Rightarrow> None
                       | Some (t3, p3) \<Rightarrow>
                           rl from to (rb_next t i) t3 (balloc_free_node i p3)
              else Some (t, p)) = Some y"
  show "separated t \<longrightarrow> separated (fst y)"
  proof
    assume s: "separated t"
    show "separated (fst y)"
    proof (cases ptr)
      case None
      with 1(2) s show ?thesis by auto
    next
      case (Some i)
      with 1(2) obtain n where n: "node_of t i = Some n"
        by (cases "node_of t i") auto
      show ?thesis
      proof (cases "m_begin n < to")
        case False
        with 1(2) Some n s show ?thesis by auto
      next
        case True
        from 1(2) Some n True obtain t2 p2 t3 p3 where
          s1: "(if m_begin n < from
                then uu_balloc_add_range (rb_erase t i) p (m_begin n) from
                else Some (rb_erase t i, p)) = Some (t2, p2)" and
          s2: "(if to < m_end n then uu_balloc_add_range t2 p2 to (m_end n)
                else Some (t2, p2)) = Some (t3, p3)" and
          rec: "rl from to (rb_next t i) t3 (balloc_free_node i p3) = Some y"
          by (simp split: option.splits prod.splits)
        have "separated t2"
          by (rule add_range_opt_separated [OF s1 rb_erase_separated [OF s]])
        then have "separated t3"
          by (rule add_range_opt_separated [OF s2])
        with 1(1) [OF rec] show ?thesis by simp
      qed
    qed
  qed
qed

lemma well_linked_add_known:
  "add_known from to st = Some st' \<Longrightarrow> well_linked st \<Longrightarrow> well_linked st'"
  by (auto simp: add_known_def well_linked_def split: option.splits
        dest: add_range_separated)

lemma well_linked_add_free:
  "add_free from to st = Some st' \<Longrightarrow> well_linked st \<Longrightarrow> well_linked st'"
  by (auto simp: add_free_def well_linked_def split: option.splits
        dest: add_range_separated)

lemma well_linked_remove_known:
  assumes "remove_known T from to st = Some st'" "inorder T = memory_map st" "well_linked st"
  shows "well_linked st'"
proof -
  from assms(1) obtain t p where
    r: "remove_loop from to (first_ptr T from) (inorder T) (balloc_free_list st) = Some (t, p)"
    and st': "st' = st\<lparr>memory_map := t, balloc_free_list := p\<rparr>"
    by (auto simp: remove_known_def uu_balloc_remove_range_on_def split: option.splits)
  from remove_loop_separated [OF r] assms(2,3) show ?thesis
    by (simp add: st' well_linked_def)
qed

lemma well_linked_remove_free:
  assumes "remove_free T from to st = Some st'" "inorder T = free_ranges st" "well_linked st"
  shows "well_linked st'"
proof -
  from assms(1) obtain t p where
    r: "remove_loop from to (first_ptr T from) (inorder T) (balloc_free_list st) = Some (t, p)"
    and st': "st' = st\<lparr>free_ranges := t, balloc_free_list := p\<rparr>"
    by (auto simp: remove_free_def uu_balloc_remove_range_on_def split: option.splits)
  from remove_loop_separated [OF r] assms(2,3) show ?thesis
    by (simp add: st' well_linked_def)
qed

lemma well_linked_alloc:
  assumes "uu_balloc_alloc T sz align from to st = Some (a, st')"
    "inorder T = free_ranges st" "well_linked st"
  shows "well_linked st'"
proof (cases "alloc_scan sz align from to (walk_from (first_ptr T from) (inorder T))")
  case None
  with assms show ?thesis by (simp add: uu_balloc_alloc_def)
next
  case (Some r)
  obtain n addr where r: "r = (n, addr)" by (cases r)
  from assms(1) Some r obtain t2 p2 t3 p3 where
    s1: "(if m_begin n < addr
          then uu_balloc_add_range (rb_erase (inorder T) (node_id n))
                 (balloc_free_list st) (m_begin n) addr
          else Some (rb_erase (inorder T) (node_id n), balloc_free_list st)) = Some (t2, p2)"
    and s2: "(if m_end n > addr + sz
              then uu_balloc_add_range t2 p2 (addr + sz) (m_end n)
              else Some (t2, p2)) = Some (t3, p3)"
    and st': "st' = st\<lparr>free_ranges := t3, balloc_free_list := balloc_free_node (node_id n) p3\<rparr>"
    by (auto simp: uu_balloc_alloc_def split: option.splits prod.splits)
  have "separated (inorder T)"
    using assms(2,3) by (simp add: well_linked_def)
  then have "separated t2"
    by (intro add_range_opt_separated [OF s1] rb_erase_separated)
  then have "separated t3"
    by (rule add_range_opt_separated [OF s2])
  then show ?thesis using assms(3) by (simp add: st' well_linked_def)
qed

lemma well_linked_add_entries:
  "add_entries es st = Some st' \<Longrightarrow> well_linked st \<Longrightarrow> well_linked st'"
  by (induction es arbitrary: st)
     (auto split: option.splits dest: well_linked_add_known well_linked_add_free)

lemma well_linked_remove_entries:
  "remove_entries es st st' \<Longrightarrow> well_linked st \<Longrightarrow> well_linked st'"
  by (induction rule: remove_entries.induct) (auto dest: well_linked_remove_free)

lemma well_linked_parse_mmap:
  assumes "balloc_parse_mmap flags entries kbegin kend init_module st st'" "well_linked st"
  shows "well_linked st'"
  using assms(1)
proof (cases rule: balloc_parse_mmap.cases)
  case (parse_mmap st1 st2 st3 st4 T5 st5 T6)
  have "well_linked st1" by (rule well_linked_add_entries [OF parse_mmap(2) assms(2)])
  then have "well_linked st2" by (rule well_linked_add_known [OF parse_mmap(3)])
  then have "well_linked st3" by (rule well_linked_add_free [OF parse_mmap(4)])
  then have "well_linked st4" by (rule well_linked_remove_entries [OF parse_mmap(5)])
  then have "well_linked st5" by (rule well_linked_remove_free [OF parse_mmap(7,6)])
  then show ?thesis by (rule well_linked_remove_free [OF parse_mmap(9,8)])
qed

lemma well_linked_init: "well_linked (balloc_setup_nodes boot_state)"
  by (simp add: well_linked_def balloc_setup_nodes_def boot_state_def)

lemma reachable_well_linked: "reachable st \<Longrightarrow> well_linked st"
proof (induction rule: reachable.induct)
  case at_init
  show ?case by (rule well_linked_init)
next
  case (at_setup flags entries kbegin kend init_module st)
  then show ?case
    unfolding balloc_setup_def by (rule well_linked_parse_mmap [OF _ well_linked_init])
next
  case (at_add_known st "from" to st')
  from at_add_known.hyps(2) at_add_known.IH show ?case by (rule well_linked_add_known)
next
  case (at_add_free st "from" to st')
  from at_add_free.hyps(2) at_add_free.IH show ?case by (rule well_linked_add_free)
next
  case (at_remove_known st T "from" to st')
  from at_remove_known.hyps(3,2) at_remove_known.IH show ?case
    by (rule well_linked_remove_known)
next
  case (at_remove_free st T "from" to st')
  from at_remove_free.hyps(3,2) at_remove_free.IH show ?case
    by (rule well_linked_remove_free)
next
  case (at_alloc_aligned st T sz align "from" to a st')
  from at_alloc_aligned.hyps(3,2) at_alloc_aligned.IH show ?case by (rule well_linked_alloc)
next
  case (at_alloc st T sz "from" to a st')
  from at_alloc.hyps(3,2) at_alloc.IH show ?case
    unfolding balloc_alloc_def Let_def by (rule well_linked_alloc)
next
  case (at_free st "from" to st')
  from at_free.hyps(2) at_free.IH show ?case
    unfolding balloc_free_def by (rule well_linked_add_free)
qed

text \<open>
  So in a reachable state an operation fails to return only on the pool: with two free
  slots every removal and every allocation returns, with any arguments and with the
  tree in any shape, and an insertion returns with one free slot.
\<close>

lemma reachable_remove_free_returns:
  assumes "reachable st" "inorder T = free_ranges st" "2 \<le> length (balloc_free_list st)"
  shows "\<exists>st'. remove_free T from to st = Some st'"
proof -
  have "separated (inorder T)"
    using reachable_well_linked [OF assms(1)] by (simp add: well_linked_def assms(2))
  moreover have "distinct (map node_id (inorder T) @ balloc_free_list st)"
    using pool_inv_distinct [OF reachable_pool_inv [OF assms(1)]] by (simp add: assms(2))
  ultimately obtain y where
    "uu_balloc_remove_range_on T (balloc_free_list st) from to = Some y"
    using remove_range_on_returns [OF _ _ assms(3)] by blast
  then show ?thesis by (cases y) (simp add: remove_free_def)
qed

lemma reachable_remove_known_returns:
  assumes "reachable st" "inorder T = memory_map st" "2 \<le> length (balloc_free_list st)"
  shows "\<exists>st'. remove_known T from to st = Some st'"
proof -
  have "separated (inorder T)"
    using reachable_well_linked [OF assms(1)] by (simp add: well_linked_def assms(2))
  moreover have "distinct (map node_id (inorder T) @ balloc_free_list st)"
    using pool_inv_distinct [OF reachable_pool_inv [OF assms(1)]]
    by (auto simp: assms(2))
  ultimately obtain y where
    "uu_balloc_remove_range_on T (balloc_free_list st) from to = Some y"
    using remove_range_on_returns [OF _ _ assms(3)] by blast
  then show ?thesis by (cases y) (simp add: remove_known_def)
qed

lemma add_free_returns:
  "1 \<le> length (balloc_free_list st) \<Longrightarrow> \<exists>st'. add_free from to st = Some st'"
proof -
  assume "1 \<le> length (balloc_free_list st)"
  then obtain i p where p: "balloc_free_list st = i # p" by (cases "balloc_free_list st") auto
  from add_range_returns [of "free_ranges st" i p "from" to] show ?thesis
    by (auto simp: add_free_def p)
qed

subsection \<open>Rounding up to the alignment\<close>

lemma and_not_mask_div:
  fixes w :: u64
  shows "unat (w AND NOT (mask k)) = (unat w div 2 ^ k) * 2 ^ k"
proof -
  have "w AND NOT (mask k) = push_bit k (drop_bit k w)"
    by (rule bit_eqI) (auto simp: bit_simps)
  then have "unat (w AND NOT (mask k)) = unat (push_bit k (drop_bit k w))" by simp
  also have "\<dots> = take_bit 64 (push_bit k (drop_bit k (unat w)))"
    by (simp add: unsigned_push_bit_eq unat_drop_bit_eq)
  also have "push_bit k (drop_bit k (unat w)) = (unat w div 2 ^ k) * 2 ^ k"
    by (simp add: push_bit_eq_mult drop_bit_eq_div)
  also have "take_bit 64 ((unat w div 2 ^ k) * 2 ^ k) = (unat w div 2 ^ k) * 2 ^ k"
  proof -
    have "(unat w div 2 ^ k) * 2 ^ k \<le> unat w" by simp
    also have "unat w < 2 ^ 64" using unsigned_less [of w] by simp
    finally show ?thesis by (simp add: take_bit_nat_eq_self_iff)
  qed
  finally show ?thesis .
qed

lemma round_up_nat:
  fixes x A :: nat
  assumes "0 < A"
  defines "r \<equiv> ((x + A - 1) div A) * A"
  shows "x \<le> r" "r < x + A" "A dvd r" "\<And>a. A dvd a \<Longrightarrow> x \<le> a \<Longrightarrow> r \<le> a"
proof -
  have m: "r = (x + A - 1) - (x + A - 1) mod A"
    unfolding r_def by (simp add: minus_mod_eq_div_mult)
  have lt: "(x + A - 1) mod A < A" using assms(1) by simp
  show "x \<le> r" using m lt assms(1) by linarith
  show "r < x + A" using m assms(1) by linarith
  show "A dvd r" by (simp add: r_def)
  fix a assume "A dvd a" "x \<le> a"
  then obtain q where a: "a = A * q" by (auto elim: dvdE)
  have "(x + A - 1) div A \<le> q"
  proof -
    have "x + A - 1 < A * q + A" using \<open>x \<le> a\<close> a assms(1) by linarith
    then have "x + A - 1 < A * Suc q" by simp
    then show ?thesis
      using assms(1) by (metis less_Suc_eq_le less_mult_imp_div_less mult.commute)
  qed
  then show "r \<le> a" unfolding r_def a by (simp add: mult.commute)
qed

text \<open>The aligned address, when rounding up does not wrap.\<close>

lemma unat_exp_u64: "k < 64 \<Longrightarrow> unat ((2::u64) ^ k) = 2 ^ k"
proof -
  assume k: "k < 64"
  have "(2::u64) ^ k = of_nat (2 ^ k)" by simp
  then have "unat ((2::u64) ^ k) = 2 ^ k mod 2 ^ 64" by (simp only: unat_of_nat) simp
  also have "(2::nat) ^ k mod 2 ^ 64 = 2 ^ k"
  proof -
    have "(2::nat) ^ k < 2 ^ 64" using k by (intro power_strict_increasing) auto
    then show ?thesis by (rule mod_less)
  qed
  finally show ?thesis .
qed

lemma align_up_unat:
  fixes b align :: u64
  assumes "align = 2 ^ k" "k < 64" "unat b + unat align \<le> 2 ^ 64"
  shows "unat ((b + (align - 1)) AND NOT (align - 1)) = ((unat b + 2 ^ k - 1) div 2 ^ k) * 2 ^ k"
proof -
  have al: "unat align = 2 ^ k" using assms(1,2) by (simp add: unat_exp_u64)
  have m: "align - 1 = mask k" by (simp add: assms(1) mask_eq_exp_minus_1)
  have "(1::u64) \<le> align" using al by (simp add: word_le_nat_alt)
  then have um: "unat (align - 1) = 2 ^ k - 1" using al by (simp add: unat_sub)
  have "unat (b + (align - 1)) = unat b + unat (align - 1)"
    using assms(3) al um by (subst unat_add_lem [THEN iffD1]) auto
  then have "unat (b + (align - 1)) = unat b + 2 ^ k - 1" using um by simp
  then show ?thesis
    using and_not_mask_div [of "b + (align - 1)" k] unfolding m by simp
qed

subsection \<open>The allocation test on one range\<close>

lemma alloc_fit_unat:
  assumes al: "align = 2 ^ k" "k < 64"
    and nw: "unat (max (m_begin n) from) + unat (align - 1) < 2 ^ 64"
      "unat ((max (m_begin n) from + (align - 1)) AND NOT (align - 1)) + unat sz < 2 ^ 64"
  defines "b \<equiv> max (unat (m_begin n)) (unat from)"
  defines "r \<equiv> ((b + 2 ^ k - 1) div 2 ^ k) * 2 ^ k"
  shows "\<exists>addr. unat addr = r \<and>
     alloc_fit sz align from to n
       = (if r + unat sz \<le> min (unat (m_end n)) (unat to) then Some addr else None)"
proof -
  define bw where "bw = (if m_begin n > from then m_begin n else from)"
  define ew where "ew = (if m_end n < to then m_end n else to)"
  define addr where "addr = (bw + (align - 1)) AND NOT (align - 1)"
  have ua: "unat align = 2 ^ k" using al by (simp add: unat_exp_u64)
  have bw: "unat bw = b" by (auto simp: bw_def b_def word_less_nat_alt max_def)
  have ew: "unat ew = min (unat (m_end n)) (unat to)"
    by (auto simp: ew_def word_less_nat_alt min_def)
  have bwm: "bw = max (m_begin n) from" by (auto simp: bw_def max_def)
  have "(1::u64) \<le> align" using ua by (simp add: word_le_nat_alt)
  then have um: "unat (align - 1) = 2 ^ k - 1" using ua by (simp add: unat_sub)
  have "unat bw + unat align \<le> 2 ^ 64" using nw(1) um ua by (simp add: bwm)
  from align_up_unat [OF al this] have r: "unat addr = r"
    by (simp add: addr_def r_def bw)
  have "unat addr + unat sz < 2 ^ 64" using nw(2) by (simp add: addr_def bwm)
  then have "unat (addr + sz) = r + unat sz"
    using r by (subst unat_add_lem [THEN iffD1]) auto
  then have "addr + sz \<le> ew \<longleftrightarrow> r + unat sz \<le> min (unat (m_end n)) (unat to)"
    by (simp add: word_le_nat_alt ew)
  then have "alloc_fit sz align from to n
       = (if r + unat sz \<le> min (unat (m_end n)) (unat to) then Some addr else None)"
    by (simp add: alloc_fit_def Let_def bw_def ew_def addr_def)
  with r show ?thesis by blast
qed

lemma alloc_fit_SomeD:
  assumes al: "align = 2 ^ k" "k < 64"
    and nw: "unat (max (m_begin n) from) + unat (align - 1) < 2 ^ 64"
      "unat ((max (m_begin n) from + (align - 1)) AND NOT (align - 1)) + unat sz < 2 ^ 64"
    and fit: "alloc_fit sz align from to n = Some addr"
  shows "m_begin n \<le> addr" "from \<le> addr"
    "unat addr + unat sz \<le> unat (m_end n)" "unat addr + unat sz \<le> unat to"
    "unat align dvd unat addr"
    "\<And>a. unat align dvd a \<Longrightarrow> unat (m_begin n) \<le> a \<Longrightarrow> unat from \<le> a \<Longrightarrow> unat addr \<le> a"
proof -
  define b where "b = max (unat (m_begin n)) (unat from)"
  define r where "r = ((b + 2 ^ k - 1) div 2 ^ k) * 2 ^ k"
  have ua: "unat align = 2 ^ k" using al by (simp add: unat_exp_u64)
  from alloc_fit_unat [OF al nw, where to = to] fit
  have r: "unat addr = r" and le: "r + unat sz \<le> min (unat (m_end n)) (unat to)"
    unfolding b_def r_def by (auto split: if_splits)
  have br: "b \<le> r" unfolding r_def by (rule round_up_nat(1)) simp
  show "m_begin n \<le> addr" "from \<le> addr"
    using br r by (simp_all add: word_le_nat_alt b_def)
  show "unat addr + unat sz \<le> unat (m_end n)" "unat addr + unat sz \<le> unat to"
    using le r by simp_all
  show "unat align dvd unat addr" unfolding ua r r_def by simp
  fix a assume "unat align dvd a" "unat (m_begin n) \<le> a" "unat from \<le> a"
  then have "2 ^ k dvd a" "b \<le> a" by (simp_all add: ua b_def)
  then show "unat addr \<le> a" unfolding r r_def by (intro round_up_nat(4)) simp_all
qed

lemma alloc_fit_NoneD:
  assumes al: "align = 2 ^ k" "k < 64"
    and nw: "unat (max (m_begin n) from) + unat (align - 1) < 2 ^ 64"
      "unat ((max (m_begin n) from + (align - 1)) AND NOT (align - 1)) + unat sz < 2 ^ 64"
    and fit: "alloc_fit sz align from to n = None"
    and a: "unat align dvd a" "unat (m_begin n) \<le> a" "unat from \<le> a"
      "a + unat sz \<le> unat (m_end n)" "a + unat sz \<le> unat to"
  shows False
proof -
  define b where "b = max (unat (m_begin n)) (unat from)"
  define r where "r = ((b + 2 ^ k - 1) div 2 ^ k) * 2 ^ k"
  have ua: "unat align = 2 ^ k" using al by (simp add: unat_exp_u64)
  from alloc_fit_unat [OF al nw, where to = to] fit
  have no: "\<not> r + unat sz \<le> min (unat (m_end n)) (unat to)"
    unfolding b_def r_def by (auto split: if_splits)
  have "2 ^ k dvd a" "b \<le> a" using a by (simp_all add: ua b_def)
  then have "r \<le> a" unfolding r_def by (intro round_up_nat(4)) simp_all
  with a(4,5) no show False by simp
qed

text \<open>The scan returns the first range of the walk that passes the test.\<close>

lemma alloc_scan_SomeD:
  "alloc_scan sz align from to ns = Some (n, addr) \<Longrightarrow>
     \<exists>R1 R2. ns = R1 @ n # R2
       \<and> (\<forall>m\<in>set R1. m_begin m < to \<and> alloc_fit sz align from to m = None)
       \<and> m_begin n < to \<and> alloc_fit sz align from to n = Some addr"
proof (induction ns)
  case Nil
  then show ?case by simp
next
  case (Cons m ns)
  show ?case
  proof (cases "alloc_fit sz align from to m")
    case None
    with Cons.prems have bt: "m_begin m < to" and "alloc_scan sz align from to ns = Some (n, addr)"
      by (auto split: if_splits)
    from Cons.IH [OF this(2)] obtain R1 R2 where "ns = R1 @ n # R2"
      "\<forall>m\<in>set R1. m_begin m < to \<and> alloc_fit sz align from to m = None"
      "m_begin n < to \<and> alloc_fit sz align from to n = Some addr"
      by blast
    with None bt show ?thesis by (intro exI [of _ "m # R1"] exI [of _ R2]) simp
  next
    case (Some a)
    with Cons.prems show ?thesis
      by (intro exI [of _ "[]"] exI [of _ ns]) (auto split: if_splits)
  qed
qed

subsection \<open>Allocation\<close>

text \<open>
  Erasing a node and re-inserting what is left of it on either side of \<open>[from, to)\<close>,
  as both \<open>__balloc_alloc\<close> and one iteration of the removal loop do.
\<close>

lemma split_node:
  assumes inv: "weak_inv (L @ n # R)" and lt: "from < to"
    and inside: "m_begin n \<le> from" "to \<le> m_end n"
  shows "case (case (if m_begin n < from
                     then uu_balloc_add_range (L @ R) p (m_begin n) from
                     else Some (L @ R, p)) of
                 None \<Rightarrow> None
               | Some (t2, p2) \<Rightarrow>
                   (if to < m_end n then uu_balloc_add_range t2 p2 to (m_end n)
                    else Some (t2, p2))) of
           None \<Rightarrow> length p < node_needs from to n
         | Some (t3, p3) \<Rightarrow>
             ranges t3 = ranges L @ carve from to (m_begin n, m_end n) @ ranges R
             \<and> weak_inv t3"
proof -
  have iv0: "\<forall>a\<in>set L. m_begin a \<le> m_end a" "\<forall>a\<in>set L. m_end a < m_begin n"
    using inv by (auto simp: weak_inv_append weak_inv_Cons weak_inv_begin_le)
  have iv: "\<forall>a\<in>set L. m_begin a < m_begin n \<and> m_end a < m_begin n"
    "\<forall>b\<in>set R. m_end n < m_begin b" "weak_inv (L @ R)"
  proof -
    show "\<forall>a\<in>set L. m_begin a < m_begin n \<and> m_end a < m_begin n"
      using iv0 by (meson order.strict_trans1)
    show "\<forall>b\<in>set R. m_end n < m_begin b" "weak_inv (L @ R)"
      using inv by (auto simp: weak_inv_append weak_inv_Cons)
  qed
  have bt: "m_begin n < to" "from < m_end n" using lt inside by auto
  have Rf: "\<forall>b\<in>set R. from < m_begin b" using iv(2) bt(2) by fastforce
  have Rt: "\<forall>b\<in>set R. m_end n < m_begin b" by (rule iv(2))
  show ?thesis
  proof (cases "m_begin n < from")
    case left: True
    show ?thesis
    proof (cases p)
      case Nil
      then show ?thesis using left bt by (simp add: node_needs_def)
    next
      case p1: (Cons i1 p1)
      define lf where "lf = \<lparr>node_id = i1, m_begin = m_begin n, m_end = from\<rparr>"
      have s1: "uu_balloc_add_range (L @ R) p (m_begin n) from = Some (L @ lf # R, p1)"
        using add_range_apart [OF iv(1) Rf, of i1 p1] left by (simp add: p1 lf_def)
      have inv2: "weak_inv (L @ lf # R)" by (rule add_range_weak [OF iv(3) less_imp_le [OF left] s1])
      show ?thesis
      proof (cases "to < m_end n")
        case right: True
        show ?thesis
        proof (cases p1)
          case Nil
          then show ?thesis using left right bt s1 p1 by (simp add: node_needs_def)
        next
          case p2: (Cons i2 p2)
          define rf where "rf = \<lparr>node_id = i2, m_begin = to, m_end = m_end n\<rparr>"
          have "\<forall>a\<in>set (L @ [lf]). m_begin a < to \<and> m_end a < to"
            using iv(1) bt lt left by (fastforce simp: lf_def)
          from add_range_apart [OF this Rt, of i2 p2] right
          have s2: "uu_balloc_add_range (L @ lf # R) p1 to (m_end n)
              = Some (L @ lf # rf # R, p2)"
            by (simp add: p2 rf_def)
          have "weak_inv (L @ lf # rf # R)" by (rule add_range_weak [OF inv2 less_imp_le [OF right] s2])
          then show ?thesis
            using left right bt lt by (simp add: s1 s2, simp add: carve_def lf_def rf_def)
        qed
      next
        case False
        then show ?thesis using left bt lt inv2 by (simp add: s1, simp add: carve_def lf_def)
      qed
    qed
  next
    case noleft: False
    show ?thesis
    proof (cases "to < m_end n")
      case right: True
      show ?thesis
      proof (cases p)
        case Nil
        then show ?thesis using noleft right bt by (simp add: node_needs_def)
      next
        case p1: (Cons i1 p1)
        define rf where "rf = \<lparr>node_id = i1, m_begin = to, m_end = m_end n\<rparr>"
        have "\<forall>a\<in>set L. m_begin a < to \<and> m_end a < to"
          using iv(1) bt by fastforce
        from add_range_apart [OF this Rt, of i1 p1] right
        have s2: "uu_balloc_add_range (L @ R) p to (m_end n) = Some (L @ rf # R, p1)"
          by (simp add: p1 rf_def)
        have "weak_inv (L @ rf # R)" by (rule add_range_weak [OF iv(3) less_imp_le [OF right] s2])
        then show ?thesis
          using noleft right bt lt by (simp add: s2, simp add: carve_def rf_def)
      qed
    next
      case False
      then show ?thesis using noleft bt lt iv(3) by (simp add: carve_def)
    qed
  qed
qed

lemma sorted_wrt_pair:
  "sorted_wrt P t \<Longrightarrow> x \<in> set t \<Longrightarrow> y \<in> set t \<Longrightarrow> x = y \<or> P x y \<or> P y x"
  by (induction t) auto

lemma end_not_covered:
  assumes "weak_inv t" "m \<in> set t"
  shows "m_end m \<notin> covered t"
proof
  assume "m_end m \<in> covered t"
  then obtain m' where m': "m' \<in> set t" "m_begin m' \<le> m_end m" "m_end m < m_end m'"
    by (auto simp: covered_def)
  have "sorted_wrt (\<lambda>a b. m_end a < m_begin b) t" using assms(1) by (simp add: weak_inv_def)
  from sorted_wrt_pair [OF this assms(2) m'(1)]
  have "m = m' \<or> m_end m < m_begin m' \<or> m_end m' < m_begin m" .
  moreover have "m_begin m \<le> m_end m" using assms by (rule weak_inv_begin_le)
  ultimately show False using m'(2,3) by auto
qed

text \<open>A covered block lies inside one stored range.\<close>

lemma block_in_node:
  assumes inv: "weak_inv t" and sz: "0 < sz"
    and nw: "unat a + unat sz < 2 ^ 64" and sub: "{a ..< a + sz} \<subseteq> covered t"
  obtains m where "m \<in> set t" "m_begin m \<le> a" "unat a + unat sz \<le> unat (m_end m)"
proof -
  have sum: "unat (a + sz) = unat a + unat sz"
    using nw by (subst unat_add_lem [THEN iffD1]) auto
  have "0 < unat sz" using sz by (simp add: word_less_nat_alt)
  then have "a < a + sz" using sum by (simp add: word_less_nat_alt)
  then have "a \<in> covered t" using sub by auto
  then obtain m where m: "m \<in> set t" "m_begin m \<le> a" "a < m_end m"
    by (auto simp: covered_def)
  have "a + sz \<le> m_end m"
  proof (rule ccontr)
    assume "\<not> a + sz \<le> m_end m"
    then have "m_end m \<in> {a ..< a + sz}" using m(3) by auto
    then have "m_end m \<in> covered t" using sub by blast
    with end_not_covered [OF inv m(1)] show False by simp
  qed
  then have "unat a + unat sz \<le> unat (m_end m)" using sum by (simp add: word_le_nat_alt)
  with m that show thesis by blast
qed


lemma scan_prefix_unfit:
  assumes "alloc_scan sz align from to ns = None" "sorted_wrt (\<lambda>a b. m_begin a < m_begin b) ns"
    "m \<in> set ns" "m_begin m < to"
  shows "alloc_fit sz align from to m = None"
  using assms
proof (induction ns)
  case Nil
  then show ?case by simp
next
  case (Cons x ns)
  show ?case
  proof (cases "m_begin x < to")
    case True
    with Cons.prems(1) have x: "alloc_fit sz align from to x = None"
      and rest: "alloc_scan sz align from to ns = None"
      by (auto split: option.splits)
    show ?thesis
    proof (cases "m = x")
      case True
      with x show ?thesis by simp
    next
      case False
      with Cons.prems(3) have "m \<in> set ns" by simp
      from Cons.IH [OF rest _ this Cons.prems(4)] Cons.prems(2) show ?thesis by simp
    qed
  next
    case False
    have "m_begin x \<le> m_begin m" using Cons.prems(2,3) by auto
    with False Cons.prems(4) show ?thesis by auto
  qed
qed

lemma weak_inv_sorted:
  assumes "weak_inv t"
  shows "sorted_wrt (\<lambda>a b. m_begin a < m_begin b) t"
proof -
  have ne: "\<forall>n\<in>set t. m_begin n \<le> m_end n"
    and s: "sorted_wrt (\<lambda>a b. m_end a < m_begin b) t"
    using assms by (simp_all add: weak_inv_def list_all_iff)
  show ?thesis using s ne by (induction t) (auto intro: le_less_trans)
qed

text \<open>
  \<open>__balloc_alloc\<close> on a free set of any shape that satisfies the invariant (stored
  ranges may be empty), for a request none of whose sums wraps around.
\<close>

lemma alloc_main:
  assumes T: "inorder T = free_ranges st"
    and inv: "weak_inv (free_ranges st)"
    and ok: "slots_ok (free_ranges st) (balloc_free_list st)"
    and sz: "0 < sz" and al: "align = 2 ^ k" "k < 64"
    and nw: "no_wrap (free_ranges st) sz align from to"
  shows "case uu_balloc_alloc T sz align from to st of
           None \<Rightarrow> length (balloc_free_list st) < 2
         | Some (a, st') \<Rightarrow>
             (a = to \<longrightarrow> st' = st \<and> (\<forall>a'. \<not> feasible (free_ranges st) sz align from to a'))
             \<and> (a \<noteq> to \<longrightarrow>
                  a < to \<and> a < a + sz
                  \<and> feasible (free_ranges st) sz align from to a
                  \<and> (\<forall>a'. feasible (free_ranges st) sz align from to a' \<longrightarrow> a \<le> a')
                  \<and> ranges (free_ranges st')
                      = concat (map (carve a (a + sz)) (ranges (free_ranges st)))
                  \<and> weak_inv (free_ranges st')
                  \<and> memory_map st' = memory_map st)"
proof -
  define t where "t = free_ranges st"
  define p where "p = balloc_free_list st"
  obtain L0 R where t: "t = L0 @ R" and L0: "\<forall>n\<in>set L0. m_end n \<le> from"
    and R: "\<forall>n\<in>set R. from < m_end n"
    and dw: "dropWhile (\<lambda>n. \<not> from < m_end n) t = R"
    by (rule first_above_split [OF inv [folded t_def]])
  have tinv: "weak_inv t" using inv by (simp add: t_def)
  have Tt: "inorder T = t" using T by (simp add: t_def)
  have dt: "distinct (map node_id t)" using ok by (simp add: slots_ok_def t_def)
  have walk: "walk_from (first_ptr T from) (inorder T) = R"
    using walk_from_ordered [of T "from"] tinv dt dw by (simp add: Tt)
  have nwm: "unat (max (m_begin m) from) + unat (align - 1) < 2 ^ 64"
    "unat ((max (m_begin m) from + (align - 1)) AND NOT (align - 1)) + unat sz < 2 ^ 64"
    if "m \<in> set R" "m_begin m < to" for m
  proof -
    have "m \<in> set t" "from < m_end m" using that(1) R t by auto
    then show "unat (max (m_begin m) from) + unat (align - 1) < 2 ^ 64"
      "unat ((max (m_begin m) from + (align - 1)) AND NOT (align - 1)) + unat sz < 2 ^ 64"
      using nw that(2) by (auto simp: no_wrap_def list_all_iff t_def)
  qed
  have usz: "0 < unat sz" using sz by (simp add: word_less_nat_alt)
  have uto: "unat to < 2 ^ 64" using unsigned_less [of to] by simp
  text \<open>Where a feasible address lies.\<close>
  have where_feasible: "\<exists>m\<in>set R. m_begin m < to \<and> m_begin m \<le> a'
      \<and> unat a' + unat sz \<le> unat (m_end m)"
    if f: "feasible t sz align from to a'" for a'
  proof -
    have f': "unat align dvd unat a'" "from \<le> a'" "unat a' + unat sz \<le> unat to"
      "{a' ..< a' + sz} \<subseteq> covered t"
      using f by (simp_all add: feasible_def)
    have "unat a' + unat sz < 2 ^ 64" using f'(3) uto by simp
    from block_in_node [OF tinv sz this f'(4)] obtain m where
      m: "m \<in> set t" "m_begin m \<le> a'" "unat a' + unat sz \<le> unat (m_end m)" by blast
    have "unat from < unat (m_end m)" using f'(2) m(3) usz by (simp add: word_le_nat_alt)
    then have "\<not> m_end m \<le> from" by (simp add: word_le_nat_alt)
    then have "m \<in> set R" using m(1) L0 t by auto
    moreover have "m_begin m < to"
      using m(2) f'(3) usz by (simp add: word_le_nat_alt word_less_nat_alt)
    ultimately show ?thesis using m by blast
  qed
  show ?thesis
  proof (cases "alloc_scan sz align from to R")
    case None
    have "\<not> feasible t sz align from to a'" for a'
    proof
      assume f: "feasible t sz align from to a'"
      then obtain m where m: "m \<in> set R" "m_begin m < to" "m_begin m \<le> a'"
        "unat a' + unat sz \<le> unat (m_end m)"
        using where_feasible by blast
      have "weak_inv R" using tinv t by (simp add: weak_inv_append)
      then have "sorted_wrt (\<lambda>a b. m_begin a < m_begin b) R" by (rule weak_inv_sorted)
      from scan_prefix_unfit [OF None this m(1,2)]
      have "alloc_fit sz align from to m = None" .
      from alloc_fit_NoneD [OF al nwm [OF m(1,2)] this, of "unat a'"] f m(3,4)
      show False by (simp add: feasible_def word_le_nat_alt)
    qed
    then show ?thesis
      using None by (simp add: uu_balloc_alloc_def walk t_def)
  next
    case (Some r)
    obtain n addr where r: "r = (n, addr)" by (cases r)
    from alloc_scan_SomeD [OF Some [unfolded r]] obtain R1 R2 where
      Rs: "R = R1 @ n # R2"
      and R1: "\<forall>m\<in>set R1. m_begin m < to \<and> alloc_fit sz align from to m = None"
      and bn: "m_begin n < to" and fit: "alloc_fit sz align from to n = Some addr"
      by blast
    define L where "L = L0 @ R1"
    have tL: "t = L @ n # R2" by (simp add: t Rs L_def)
    have d: "distinct (map node_id (L @ n # R2))"
      using ok by (auto simp: slots_ok_def t_def [symmetric] tL)
    have nR: "n \<in> set R" by (simp add: Rs)
    note fd = alloc_fit_SomeD [OF al nwm [OF nR bn] fit]
    have sum: "unat (addr + sz) = unat addr + unat sz"
      using fd(4) uto by (subst unat_add_lem [THEN iffD1]) auto
    have lt: "addr < addr + sz" using sum usz by (simp add: word_less_nat_alt)
    have le: "addr + sz \<le> m_end n" using sum fd(3) by (simp add: word_le_nat_alt)
    have ato: "addr < to" using fd(4) usz by (simp add: word_less_nat_alt)
    have tLinv: "weak_inv (L @ n # R2)" using tinv tL by simp
    have Lend: "\<forall>m\<in>set L. m_end m \<le> addr"
      using tLinv fd(1) by (fastforce simp: weak_inv_append weak_inv_Cons)
    have R2beg: "\<forall>m\<in>set R2. m_end n < m_begin m"
      using tLinv by (auto simp: weak_inv_append weak_inv_Cons)
    then have R2out: "\<forall>m\<in>set R2. \<not> m_begin m < addr + sz" using le by fastforce
    have feas: "feasible t sz align from to addr"
    proof -
      have "{addr ..< addr + sz} \<subseteq> {m_begin n ..< m_end n}" using fd(1) le by auto
      also have "\<dots> \<subseteq> covered t" by (auto simp: covered_def tL)
      finally show ?thesis using fd by (simp add: feasible_def)
    qed
    have least: "addr \<le> a'" if f: "feasible t sz align from to a'" for a'
    proof -
      from where_feasible [OF f] obtain m where m: "m \<in> set R" "m_begin m < to"
        "m_begin m \<le> a'" "unat a' + unat sz \<le> unat (m_end m)" by blast
      have f': "unat align dvd unat a'" "from \<le> a'" "unat a' + unat sz \<le> unat to"
        using f by (simp_all add: feasible_def)
      from m(1) Rs consider "m \<in> set R1" | "m = n" | "m \<in> set R2" by auto
      then show ?thesis
      proof cases
        case 1
        with R1 have "alloc_fit sz align from to m = None" by simp
        from alloc_fit_NoneD [OF al nwm [OF m(1,2)] this, of "unat a'"] f' m(3,4)
        show ?thesis by (simp add: word_le_nat_alt)
      next
        case 2
        with fd(6) [of "unat a'"] f' m(3) show ?thesis by (simp add: word_le_nat_alt)
      next
        case 3
        with R2beg have "m_end n < m_begin m" by simp
        with lt le m(3) show ?thesis by auto
      qed
    qed
    have erase: "rb_erase (inorder T) (node_id n) = L @ R2"
      using rb_erase_mid [OF d] by (simp add: Tt tL)
    define comp where "comp =
      (case (if m_begin n < addr
             then uu_balloc_add_range (L @ R2) p (m_begin n) addr
             else Some (L @ R2, p)) of
         None \<Rightarrow> None
       | Some (t2, p2) \<Rightarrow>
           (if addr + sz < m_end n then uu_balloc_add_range t2 p2 (addr + sz) (m_end n)
            else Some (t2, p2)))"
    have sp: "case comp of
        None \<Rightarrow> length p < node_needs addr (addr + sz) n
      | Some (t3, p3) \<Rightarrow>
          ranges t3 = ranges L @ carve addr (addr + sz) (m_begin n, m_end n) @ ranges R2
          \<and> weak_inv t3"
      unfolding comp_def by (rule split_node [OF tLinv lt fd(1) le])
    have scan: "alloc_scan sz align from to (walk_from (first_ptr T from) (inorder T))
        = Some (n, addr)"
      using Some r walk by simp
    have alloc: "uu_balloc_alloc T sz align from to st =
        (case comp of
           None \<Rightarrow> None
         | Some (t3, p3) \<Rightarrow>
             Some (addr, st\<lparr>free_ranges := t3,
                             balloc_free_list := balloc_free_node (node_id n) p3\<rparr>))"
      by (simp add: uu_balloc_alloc_def scan comp_def erase p_def split: option.splits)
    have nn: "node_needs addr (addr + sz) n \<le> 2" by (simp add: node_needs_def)
    have cr: "ranges L @ carve addr (addr + sz) (m_begin n, m_end n) @ ranges R2
        = concat (map (carve addr (addr + sz)) (ranges t))"
      using carve_below [OF Lend, of "addr + sz"] carve_outside [OF R2out, of addr]
      by (simp add: tL)
    show ?thesis
    proof (cases comp)
      case None
      with sp nn show ?thesis unfolding alloc by (simp add: p_def)
    next
      case (Some c)
      obtain t3 p3 where c: "c = (t3, p3)" by (cases c)
      from sp Some c have "ranges t3 = concat (map (carve addr (addr + sz)) (ranges t))"
        and "weak_inv t3"
        by (simp_all add: cr)
      then show ?thesis
        unfolding alloc Some c using feas least ato lt by (auto simp: t_def)
    qed
  qed
qed

text \<open>
  C4, as stated, fails when a sum wraps around: on the free set \<open>{[16, 100)}\<close> the
  request \<open>size = 2^64 - 8\<close>, \<open>align = 1\<close>, window \<open>[0, 100)\<close> passes the test
  \<open>addr + size <= e\<close> because \<open>16 + size\<close> wraps to 8. The call returns 16, the block
  does not end inside the window, and the free set afterwards is \<open>{[8, 100)}\<close>, which
  covers the address 8 that was not free before.
\<close>

theorem alloc_wrap_counterexample:
  "uu_balloc_alloc (Node Leaf \<lparr>node_id = 0, m_begin = 16, m_end = 100\<rparr> Leaf)
     0xFFFFFFFFFFFFFFF8 1 0 100
     \<lparr>memory_map = [], free_ranges = [\<lparr>node_id = 0, m_begin = 16, m_end = 100\<rparr>],
      balloc_free_list = [5, 6]\<rparr>
   = Some (16, \<lparr>memory_map = [], free_ranges = [\<lparr>node_id = 5, m_begin = 8, m_end = 100\<rparr>],
                balloc_free_list = [0, 6]\<rparr>)
   \<and> (16 :: u64) \<noteq> 100 \<and> (0 :: u64) < 0xFFFFFFFFFFFFFFF8 \<and> (1 :: u64) = 2 ^ 0
   \<and> \<not> unat (16 :: u64) + unat (0xFFFFFFFFFFFFFFF8 :: u64) \<le> unat (100 :: u64)
   \<and> 8 \<in> covered [\<lparr>node_id = 5, m_begin = 8, m_end = 100\<rparr>]
   \<and> 8 \<notin> covered [\<lparr>node_id = 0, m_begin = 16, m_end = 100\<rparr>]"
proof -
  have "uu_balloc_alloc (Node Leaf \<lparr>node_id = 0, m_begin = 16, m_end = 100\<rparr> Leaf)
     0xFFFFFFFFFFFFFFF8 1 0 100
     \<lparr>memory_map = [], free_ranges = [\<lparr>node_id = 0, m_begin = 16, m_end = 100\<rparr>],
      balloc_free_list = [5, 6]\<rparr>
   = Some (16, \<lparr>memory_map = [], free_ranges = [\<lparr>node_id = 5, m_begin = 8, m_end = 100\<rparr>],
                balloc_free_list = [0, 6]\<rparr>)"
    by code_simp
  then show ?thesis by (simp add: covered_def)
qed

text \<open>
  C4, amended: let the free set satisfy the invariant (ordered, disjoint, not touching;
  a stored range may be empty), in whatever shape its tree is, let \<open>size > 0\<close> and
  \<open>align\<close> be a power of two, and let no sum wrap around on a range the scan can
  visit: for every stored range with \<open>end > from\<close> and \<open>begin < to\<close>, the sums
  \<open>max(begin, from) + (align - 1)\<close> and \<open>addr + size\<close>, with \<open>addr\<close> the
  rounded-up address, are below \<open>2^64\<close>. Then a call of \<open>__balloc_alloc\<close> that
  returns an address \<open>a\<close> other than \<open>to\<close> returns a multiple of \<open>align\<close>
  with \<open>from <= a\<close> and \<open>a + size <= to\<close>, the block \<open>[a, a + size)\<close> was
  covered by the free set, and the free set afterwards covers exactly the old addresses
  outside the block and satisfies the invariant again. The call halts only when fewer
  than two slots are free. The window itself is not restricted: \<open>to\<close> may be
  \<open>2^64 - 1\<close>.
\<close>

theorem alloc_correct:
  assumes "inorder T = free_ranges st"
    and "weak_inv (free_ranges st)"
    and "slots_ok (free_ranges st) (balloc_free_list st)"
    and "0 < sz" and "align = 2 ^ k" and "k < 64"
    and "no_wrap (free_ranges st) sz align from to"
  shows "case uu_balloc_alloc T sz align from to st of
           None \<Rightarrow> length (balloc_free_list st) < 2
         | Some (a, st') \<Rightarrow>
             a \<noteq> to \<longrightarrow>
               unat align dvd unat a \<and> from \<le> a \<and> unat a + unat sz \<le> unat to
               \<and> {a ..< a + sz} \<subseteq> covered (free_ranges st)
               \<and> covered (free_ranges st') = covered (free_ranges st) - {a ..< a + sz}
               \<and> weak_inv (free_ranges st')
               \<and> (interval_inv (free_ranges st) \<longrightarrow> interval_inv (free_ranges st'))
               \<and> memory_map st' = memory_map st"
proof (cases "uu_balloc_alloc T sz align from to st")
  case None
  with alloc_main [OF assms] show ?thesis by simp
next
  case (Some r)
  obtain a st' where r: "r = (a, st')" by (cases r)
  show ?thesis
  proof (cases "a = to")
    case True
    then show ?thesis by (simp add: Some r)
  next
    case False
    with alloc_main [OF assms] Some r
    have lt: "a < a + sz" and f: "feasible (free_ranges st) sz align from to a"
      and rs: "ranges (free_ranges st')
          = concat (map (carve a (a + sz)) (ranges (free_ranges st)))"
      and rest: "weak_inv (free_ranges st')" "memory_map st' = memory_map st"
      by simp_all
    have "covered (free_ranges st') = covered (free_ranges st) - {a ..< a + sz}"
      unfolding covered_ranges rs using lt by (intro carve_cover) simp
    moreover have "interval_inv (free_ranges st')" if "interval_inv (free_ranges st)"
    proof -
      have "\<forall>r\<in>set (ranges (free_ranges st)). fst r < snd r"
        using that by (simp add: interval_inv_iff_weak)
      then have "\<forall>r\<in>set (ranges (free_ranges st')). fst r < snd r"
        unfolding rs by (rule carve_nonempty)
      with rest(1) show ?thesis by (simp add: interval_inv_iff_weak)
    qed
    ultimately show ?thesis using f rest by (simp add: Some r feasible_def)
  qed
qed

theorem alloc_correct_witness:
  "inorder (Node Leaf \<lparr>node_id = 0, m_begin = 0, m_end = 100\<rparr> Leaf) = [\<lparr>node_id = 0, m_begin = 0, m_end = 100\<rparr>]
   \<and> weak_inv [\<lparr>node_id = 0, m_begin = 0, m_end = 100\<rparr>]
   \<and> slots_ok [\<lparr>node_id = 0, m_begin = 0, m_end = 100\<rparr>] [5, 6]
   \<and> (0 :: u64) < 10 \<and> (16 :: u64) = 2 ^ 4 \<and> (4 :: nat) < 64
   \<and> no_wrap [\<lparr>node_id = 0, m_begin = 0, m_end = 100\<rparr>] 10 16 1 0xFFFFFFFFFFFFFFFF
   \<and> uu_balloc_alloc (Node Leaf \<lparr>node_id = 0, m_begin = 0, m_end = 100\<rparr> Leaf) 10 16 1 0xFFFFFFFFFFFFFFFF
        \<lparr>memory_map = [], free_ranges = [\<lparr>node_id = 0, m_begin = 0, m_end = 100\<rparr>],
         balloc_free_list = [5, 6]\<rparr>
      = Some (16, \<lparr>memory_map = [],
                   free_ranges = [\<lparr>node_id = 5, m_begin = 0, m_end = 16\<rparr>,
                                  \<lparr>node_id = 6, m_begin = 26, m_end = 100\<rparr>],
                   balloc_free_list = [0]\<rparr>)
   \<and> covered [\<lparr>node_id = 5, m_begin = 0, m_end = 16\<rparr>, \<lparr>node_id = 6, m_begin = 26, m_end = 100\<rparr>]
      = covered [\<lparr>node_id = 0, m_begin = 0, m_end = 100\<rparr>] - {16 ..< 16 + 10}"
proof -
  let ?T = "Node Leaf \<lparr>node_id = 0, m_begin = 0, m_end = 100\<rparr> Leaf"
  let ?st = "\<lparr>memory_map = [], free_ranges = [\<lparr>node_id = 0, m_begin = 0, m_end = 100\<rparr>],
         balloc_free_list = [5, 6]\<rparr>"
  have h0: "inorder ?T = free_ranges ?st" by simp
  have h1: "weak_inv (free_ranges ?st)" by (simp add: weak_inv_def)
  have h2: "slots_ok (free_ranges ?st) (balloc_free_list ?st)" by (simp add: slots_ok_def)
  have h3: "(0 :: u64) < 10" by simp
  have h4: "(16 :: u64) = 2 ^ 4" by simp
  have h5: "(4 :: nat) < 64" by simp
  have h6: "no_wrap (free_ranges ?st) 10 16 1 0xFFFFFFFFFFFFFFFF" by (simp add: no_wrap_def)
  have r: "uu_balloc_alloc ?T 10 16 1 0xFFFFFFFFFFFFFFFF ?st
      = Some (16, \<lparr>memory_map = [],
                   free_ranges = [\<lparr>node_id = 5, m_begin = 0, m_end = 16\<rparr>,
                                  \<lparr>node_id = 6, m_begin = 26, m_end = 100\<rparr>],
                   balloc_free_list = [0]\<rparr>)"
    by code_simp
  from alloc_correct [OF h0 h1 h2 h3 h4 h5 h6]
  have "covered [\<lparr>node_id = 5, m_begin = 0, m_end = 16\<rparr>, \<lparr>node_id = 6, m_begin = 26, m_end = 100\<rparr>]
      = covered [\<lparr>node_id = 0, m_begin = 0, m_end = 100\<rparr>] - {16 ..< 16 + 10}"
    unfolding r by simp
  with h0 h1 h2 h3 h5 h6 r show ?thesis by simp
qed

text \<open>
  C5, as stated, fails when \<open>addr + size\<close> wraps around: on the free set \<open>{[0, 100)}\<close>
  the request \<open>size = 2^64 - 16\<close>, \<open>align = 16\<close>, window \<open>[1, 16)\<close> rounds 1 up to 16,
  and \<open>16 + size\<close> wraps to 0, which passes the test. The call takes the success branch,
  returns 16, which is the sentinel \<open>to\<close>, and leaves the free set \<open>{[0, 16)}\<close>.
\<close>

theorem alloc_sentinel_counterexample:
  "uu_balloc_alloc (Node Leaf \<lparr>node_id = 0, m_begin = 0, m_end = 100\<rparr> Leaf) 0xFFFFFFFFFFFFFFF0 16 1 16
     \<lparr>memory_map = [], free_ranges = [\<lparr>node_id = 0, m_begin = 0, m_end = 100\<rparr>],
      balloc_free_list = [5, 6]\<rparr>
   = Some (16, \<lparr>memory_map = [], free_ranges = [\<lparr>node_id = 6, m_begin = 0, m_end = 16\<rparr>],
                balloc_free_list = [0, 5]\<rparr>)
   \<and> (0 :: u64) < 0xFFFFFFFFFFFFFFF0
   \<and> ranges [\<lparr>node_id = 6, m_begin = 0, m_end = 16\<rparr>]
        \<noteq> ranges [\<lparr>node_id = 0, m_begin = 0, m_end = 100\<rparr>]"
proof -
  have "uu_balloc_alloc (Node Leaf \<lparr>node_id = 0, m_begin = 0, m_end = 100\<rparr> Leaf) 0xFFFFFFFFFFFFFFF0 16 1 16
     \<lparr>memory_map = [], free_ranges = [\<lparr>node_id = 0, m_begin = 0, m_end = 100\<rparr>],
      balloc_free_list = [5, 6]\<rparr>
   = Some (16, \<lparr>memory_map = [], free_ranges = [\<lparr>node_id = 6, m_begin = 0, m_end = 16\<rparr>],
                balloc_free_list = [0, 5]\<rparr>)"
    by code_simp
  then show ?thesis by (simp add: ranges_def)
qed

text \<open>
  C5, amended: let the free set satisfy the invariant (a stored range may be empty), in
  whatever shape its tree is, let \<open>size > 0\<close> and \<open>align\<close> be a power of two, and let
  no sum wrap around on a range the scan can visit: for every stored range with
  \<open>end > from\<close> and \<open>begin < to\<close>, the sums \<open>max(begin, from) + (align - 1)\<close> and
  \<open>addr + size\<close>, with \<open>addr\<close> the rounded-up address, are below \<open>2^64\<close>. Then
  \<open>__balloc_alloc\<close> returns \<open>to\<close> exactly when it allocates nothing: when it
  returns \<open>to\<close> the whole state is unchanged (and no address could have satisfied
  the request), and when it returns another address that address is strictly below
  \<open>to\<close> and the free set has changed. The request \<open>size = 200\<close>, \<open>align = 1\<close>,
  window \<open>[0, 100)\<close> on \<open>{[0, 100)}\<close> returns 100 and changes nothing.
\<close>

theorem alloc_sentinel:
  assumes "inorder T = free_ranges st"
    and "weak_inv (free_ranges st)"
    and "slots_ok (free_ranges st) (balloc_free_list st)"
    and "0 < sz" and "align = 2 ^ k" and "k < 64"
    and "no_wrap (free_ranges st) sz align from to"
  shows "(case uu_balloc_alloc T sz align from to st of
            None \<Rightarrow> length (balloc_free_list st) < 2
          | Some (a, st') \<Rightarrow>
              (a = to \<longrightarrow> st' = st \<and> (\<forall>a'. \<not> feasible (free_ranges st) sz align from to a'))
              \<and> (a \<noteq> to \<longrightarrow> a < to \<and> covered (free_ranges st') \<noteq> covered (free_ranges st)))
       \<and> uu_balloc_alloc (Node Leaf \<lparr>node_id = 0, m_begin = 0, m_end = 100\<rparr> Leaf) 200 1 0 100
            \<lparr>memory_map = [], free_ranges = [\<lparr>node_id = 0, m_begin = 0, m_end = 100\<rparr>],
             balloc_free_list = [5, 6]\<rparr>
          = Some (100, \<lparr>memory_map = [],
                        free_ranges = [\<lparr>node_id = 0, m_begin = 0, m_end = 100\<rparr>],
                        balloc_free_list = [5, 6]\<rparr>)"
proof -
  have ex: "uu_balloc_alloc (Node Leaf \<lparr>node_id = 0, m_begin = 0, m_end = 100\<rparr> Leaf) 200 1 0 100
            \<lparr>memory_map = [], free_ranges = [\<lparr>node_id = 0, m_begin = 0, m_end = 100\<rparr>],
             balloc_free_list = [5, 6]\<rparr>
          = Some (100, \<lparr>memory_map = [],
                        free_ranges = [\<lparr>node_id = 0, m_begin = 0, m_end = 100\<rparr>],
                        balloc_free_list = [5, 6]\<rparr>)"
    by code_simp
  have "case uu_balloc_alloc T sz align from to st of
            None \<Rightarrow> length (balloc_free_list st) < 2
          | Some (a, st') \<Rightarrow>
              (a = to \<longrightarrow> st' = st \<and> (\<forall>a'. \<not> feasible (free_ranges st) sz align from to a'))
              \<and> (a \<noteq> to \<longrightarrow> a < to \<and> covered (free_ranges st') \<noteq> covered (free_ranges st))"
  proof (cases "uu_balloc_alloc T sz align from to st")
    case None
    with alloc_main [OF assms] show ?thesis by simp
  next
    case (Some r)
    obtain a st' where r: "r = (a, st')" by (cases r)
    show ?thesis
    proof (cases "a = to")
      case True
      with alloc_main [OF assms] Some r show ?thesis by simp
    next
      case False
      with alloc_main [OF assms] Some r
      have ato: "a < to" and lt: "a < a + sz"
        and f: "feasible (free_ranges st) sz align from to a"
        and rs: "ranges (free_ranges st')
            = concat (map (carve a (a + sz)) (ranges (free_ranges st)))"
        by simp_all
      have c: "covered (free_ranges st') = covered (free_ranges st) - {a ..< a + sz}"
        unfolding covered_ranges rs using lt by (intro carve_cover) simp
      have "a \<in> covered (free_ranges st)" using f lt by (auto simp: feasible_def)
      moreover have "a \<notin> covered (free_ranges st')" using c lt by simp
      ultimately have "covered (free_ranges st') \<noteq> covered (free_ranges st)" by blast
      with ato False show ?thesis by (simp add: Some r)
    qed
  qed
  with ex show ?thesis by blast
qed

theorem alloc_sentinel_witness:
  "inorder (Node Leaf \<lparr>node_id = 0, m_begin = 0, m_end = 100\<rparr> Leaf) = [\<lparr>node_id = 0, m_begin = 0, m_end = 100\<rparr>]
   \<and> weak_inv [\<lparr>node_id = 0, m_begin = 0, m_end = 100\<rparr>]
   \<and> slots_ok [\<lparr>node_id = 0, m_begin = 0, m_end = 100\<rparr>] [5, 6]
   \<and> (0 :: u64) < 200 \<and> (1 :: u64) = 2 ^ 0 \<and> (0 :: nat) < 64
   \<and> no_wrap [\<lparr>node_id = 0, m_begin = 0, m_end = 100\<rparr>] 200 1 0 100
   \<and> uu_balloc_alloc (Node Leaf \<lparr>node_id = 0, m_begin = 0, m_end = 100\<rparr> Leaf) 200 1 0 100
        \<lparr>memory_map = [], free_ranges = [\<lparr>node_id = 0, m_begin = 0, m_end = 100\<rparr>],
         balloc_free_list = [5, 6]\<rparr>
      = Some (100, \<lparr>memory_map = [],
                    free_ranges = [\<lparr>node_id = 0, m_begin = 0, m_end = 100\<rparr>],
                    balloc_free_list = [5, 6]\<rparr>)
   \<and> (\<forall>a'. \<not> feasible [\<lparr>node_id = 0, m_begin = 0, m_end = 100\<rparr>] 200 1 0 100 a')"
proof -
  let ?T = "Node Leaf \<lparr>node_id = 0, m_begin = 0, m_end = 100\<rparr> Leaf"
  let ?st = "\<lparr>memory_map = [], free_ranges = [\<lparr>node_id = 0, m_begin = 0, m_end = 100\<rparr>],
         balloc_free_list = [5, 6]\<rparr>"
  have h0: "inorder ?T = free_ranges ?st" by simp
  have h1: "weak_inv (free_ranges ?st)" by (simp add: weak_inv_def)
  have h2: "slots_ok (free_ranges ?st) (balloc_free_list ?st)" by (simp add: slots_ok_def)
  have h3: "(0 :: u64) < 200" by simp
  have h4: "(1 :: u64) = 2 ^ 0" by simp
  have h5: "(0 :: nat) < 64" by simp
  have h6: "no_wrap (free_ranges ?st) 200 1 0 100" by (simp add: no_wrap_def)
  have r: "uu_balloc_alloc ?T 200 1 0 100 ?st = Some (100, ?st)"
    by code_simp
  from alloc_sentinel [OF h0 h1 h2 h3 h4 h5 h6]
  have "case uu_balloc_alloc ?T 200 1 0 100 ?st of
            None \<Rightarrow> length (balloc_free_list ?st) < 2
          | Some (a, st') \<Rightarrow>
              (a = 100 \<longrightarrow> st' = ?st \<and> (\<forall>a'. \<not> feasible (free_ranges ?st) 200 1 0 100 a'))
              \<and> (a \<noteq> 100 \<longrightarrow> a < 100 \<and> covered (free_ranges st') \<noteq> covered (free_ranges ?st))"
    by (rule conjunct1)
  then have "\<forall>a'. \<not> feasible (free_ranges ?st) 200 1 0 100 a'"
    unfolding r by simp
  with h0 h1 h2 h3 h5 h6 r show ?thesis by simp
qed

text \<open>
  C10, as stated, fails when rounding up wraps around: on the free set
  \<open>{[2^64 - 8, 2^64 - 1)}\<close> the request \<open>size = 1\<close>, \<open>align = 16\<close>, window
  \<open>[0, 2^64 - 1)\<close> rounds \<open>2^64 - 8\<close> up to 0. The call returns 0, which is not a
  feasible address (the block \<open>[0, 1)\<close> is not free), so it is not the least one.
\<close>

theorem alloc_first_fit_counterexample:
  "uu_balloc_alloc
     (Node Leaf \<lparr>node_id = 0, m_begin = 0xFFFFFFFFFFFFFFF8, m_end = 0xFFFFFFFFFFFFFFFF\<rparr> Leaf)
     1 16 0 0xFFFFFFFFFFFFFFFF
     \<lparr>memory_map = [], free_ranges = [\<lparr>node_id = 0, m_begin = 0xFFFFFFFFFFFFFFF8, m_end = 0xFFFFFFFFFFFFFFFF\<rparr>],
      balloc_free_list = [5, 6]\<rparr>
   = Some (0, \<lparr>memory_map = [], free_ranges = [\<lparr>node_id = 5, m_begin = 1, m_end = 0xFFFFFFFFFFFFFFFF\<rparr>],
               balloc_free_list = [0, 6]\<rparr>)
   \<and> (0 :: u64) \<noteq> 0xFFFFFFFFFFFFFFFF \<and> (0 :: u64) < 1 \<and> (16 :: u64) = 2 ^ 4
   \<and> \<not> feasible [\<lparr>node_id = 0, m_begin = 0xFFFFFFFFFFFFFFF8, m_end = 0xFFFFFFFFFFFFFFFF\<rparr>] 1 16 0 0xFFFFFFFFFFFFFFFF 0"
proof -
  have "uu_balloc_alloc
     (Node Leaf \<lparr>node_id = 0, m_begin = 0xFFFFFFFFFFFFFFF8, m_end = 0xFFFFFFFFFFFFFFFF\<rparr> Leaf)
     1 16 0 0xFFFFFFFFFFFFFFFF
     \<lparr>memory_map = [], free_ranges = [\<lparr>node_id = 0, m_begin = 0xFFFFFFFFFFFFFFF8, m_end = 0xFFFFFFFFFFFFFFFF\<rparr>],
      balloc_free_list = [5, 6]\<rparr>
   = Some (0, \<lparr>memory_map = [], free_ranges = [\<lparr>node_id = 5, m_begin = 1, m_end = 0xFFFFFFFFFFFFFFFF\<rparr>],
               balloc_free_list = [0, 6]\<rparr>)"
    by code_simp
  moreover have "(0 :: u64) \<in> {0 ..< 0 + 1}" by simp
  moreover have "(0 :: u64) \<notin> covered [\<lparr>node_id = 0, m_begin = 0xFFFFFFFFFFFFFFF8, m_end = 0xFFFFFFFFFFFFFFFF\<rparr>]"
    by (simp add: covered_def)
  ultimately show ?thesis by (auto simp: feasible_def)
qed

text \<open>
  C10, amended: let the free set satisfy the invariant (a stored range may be empty), in
  whatever shape its tree is, let \<open>size > 0\<close> and \<open>align\<close> be a power of two, and let
  no sum wrap around on a range the scan can visit: for every stored range with
  \<open>end > from\<close> and \<open>begin < to\<close>, the sums \<open>max(begin, from) + (align - 1)\<close> and
  \<open>addr + size\<close>, with \<open>addr\<close> the rounded-up address, are below \<open>2^64\<close>. Then
  an address other than \<open>to\<close> that \<open>__balloc_alloc\<close> returns is the least
  feasible one: it is a multiple of \<open>align\<close> with \<open>from <= a\<close>,
  \<open>a + size <= to\<close> and \<open>[a, a + size)\<close> free, and every address with these
  properties is at least \<open>a\<close>.
\<close>

theorem alloc_first_fit:
  assumes "inorder T = free_ranges st"
    and "weak_inv (free_ranges st)"
    and "slots_ok (free_ranges st) (balloc_free_list st)"
    and "0 < sz" and "align = 2 ^ k" and "k < 64"
    and "no_wrap (free_ranges st) sz align from to"
  shows "case uu_balloc_alloc T sz align from to st of
           None \<Rightarrow> length (balloc_free_list st) < 2
         | Some (a, st') \<Rightarrow>
             a \<noteq> to \<longrightarrow>
               feasible (free_ranges st) sz align from to a
               \<and> (\<forall>a'. feasible (free_ranges st) sz align from to a' \<longrightarrow> a \<le> a')"
  using alloc_main [OF assms] by (auto split: option.splits)

theorem alloc_first_fit_witness:
  "inorder (Node (Node Leaf \<lparr>node_id = 0, m_begin = 0, m_end = 20\<rparr> Leaf) \<lparr>node_id = 4, m_begin = 40, m_end = 100\<rparr> Leaf) = [\<lparr>node_id = 0, m_begin = 0, m_end = 20\<rparr>, \<lparr>node_id = 4, m_begin = 40, m_end = 100\<rparr>]
   \<and> weak_inv [\<lparr>node_id = 0, m_begin = 0, m_end = 20\<rparr>, \<lparr>node_id = 4, m_begin = 40, m_end = 100\<rparr>]
   \<and> slots_ok [\<lparr>node_id = 0, m_begin = 0, m_end = 20\<rparr>, \<lparr>node_id = 4, m_begin = 40, m_end = 100\<rparr>] [2, 3]
   \<and> (0 :: u64) < 10 \<and> (16 :: u64) = 2 ^ 4 \<and> (4 :: nat) < 64
   \<and> no_wrap [\<lparr>node_id = 0, m_begin = 0, m_end = 20\<rparr>, \<lparr>node_id = 4, m_begin = 40, m_end = 100\<rparr>] 10 16 1 0xFFFFFFFFFFFFFFFF
   \<and> uu_balloc_alloc (Node (Node Leaf \<lparr>node_id = 0, m_begin = 0, m_end = 20\<rparr> Leaf) \<lparr>node_id = 4, m_begin = 40, m_end = 100\<rparr> Leaf) 10 16 1 0xFFFFFFFFFFFFFFFF
        \<lparr>memory_map = [],
         free_ranges = [\<lparr>node_id = 0, m_begin = 0, m_end = 20\<rparr>, \<lparr>node_id = 4, m_begin = 40, m_end = 100\<rparr>],
         balloc_free_list = [2, 3]\<rparr>
      = Some (48, \<lparr>memory_map = [],
                   free_ranges = [\<lparr>node_id = 0, m_begin = 0, m_end = 20\<rparr>,
                                  \<lparr>node_id = 2, m_begin = 40, m_end = 48\<rparr>,
                                  \<lparr>node_id = 3, m_begin = 58, m_end = 100\<rparr>],
                   balloc_free_list = [4]\<rparr>)
   \<and> feasible [\<lparr>node_id = 0, m_begin = 0, m_end = 20\<rparr>, \<lparr>node_id = 4, m_begin = 40, m_end = 100\<rparr>] 10 16 1 0xFFFFFFFFFFFFFFFF 48
   \<and> \<not> feasible [\<lparr>node_id = 0, m_begin = 0, m_end = 20\<rparr>, \<lparr>node_id = 4, m_begin = 40, m_end = 100\<rparr>] 10 16 1 0xFFFFFFFFFFFFFFFF 32
   \<and> \<not> feasible [\<lparr>node_id = 0, m_begin = 0, m_end = 20\<rparr>, \<lparr>node_id = 4, m_begin = 40, m_end = 100\<rparr>] 10 16 1 0xFFFFFFFFFFFFFFFF 16"
proof -
  let ?T = "Node (Node Leaf \<lparr>node_id = 0, m_begin = 0, m_end = 20\<rparr> Leaf) \<lparr>node_id = 4, m_begin = 40, m_end = 100\<rparr> Leaf"
  let ?st = "\<lparr>memory_map = [],
         free_ranges = [\<lparr>node_id = 0, m_begin = 0, m_end = 20\<rparr>, \<lparr>node_id = 4, m_begin = 40, m_end = 100\<rparr>],
         balloc_free_list = [2, 3]\<rparr>"
  have h0: "inorder ?T = free_ranges ?st" by simp
  have h1: "weak_inv (free_ranges ?st)" by (simp add: weak_inv_def)
  have h2: "slots_ok (free_ranges ?st) (balloc_free_list ?st)" by (simp add: slots_ok_def)
  have h3: "(0 :: u64) < 10" by simp
  have h4: "(16 :: u64) = 2 ^ 4" by simp
  have h5: "(4 :: nat) < 64" by simp
  have h6: "no_wrap (free_ranges ?st) 10 16 1 0xFFFFFFFFFFFFFFFF" by (simp add: no_wrap_def)
  have r: "uu_balloc_alloc ?T 10 16 1 0xFFFFFFFFFFFFFFFF ?st
      = Some (48, \<lparr>memory_map = [],
                   free_ranges = [\<lparr>node_id = 0, m_begin = 0, m_end = 20\<rparr>,
                                  \<lparr>node_id = 2, m_begin = 40, m_end = 48\<rparr>,
                                  \<lparr>node_id = 3, m_begin = 58, m_end = 100\<rparr>],
                   balloc_free_list = [4]\<rparr>)"
    by code_simp
  from alloc_first_fit [OF h0 h1 h2 h3 h4 h5 h6]
  have f: "feasible (free_ranges ?st) 10 16 1 0xFFFFFFFFFFFFFFFF 48"
    and least: "\<forall>a'. feasible (free_ranges ?st) 10 16 1 0xFFFFFFFFFFFFFFFF a' \<longrightarrow> 48 \<le> a'"
    unfolding r by simp_all
  from least have "\<not> feasible (free_ranges ?st) 10 16 1 0xFFFFFFFFFFFFFFFF 32"
    and "\<not> feasible (free_ranges ?st) 10 16 1 0xFFFFFFFFFFFFFFFF 16"
    by fastforce+
  with f h0 h1 h2 h3 h5 h6 r show ?thesis by simp
qed

subsection \<open>Bootstrap\<close>

text \<open>A memory-map entry that denotes an interval below \<open>2^64\<close>.\<close>

lemma entry_interval:
  assumes "unat (e_addr en) + unat (e_length en) < 2 ^ 64"
  shows "e_addr en \<le> e_addr en + e_length en"
proof -
  have "unat (e_addr en + e_length en) = unat (e_addr en) + unat (e_length en)"
    using assms by (subst unat_add_lem [THEN iffD1]) auto
  then show ?thesis by (simp add: word_le_nat_alt)
qed

lemma add_known_free_inv:
  assumes "add_known from to st = Some st'" "weak_inv (free_ranges st)" "pool_inv st"
  shows "weak_inv (free_ranges st') \<and> pool_inv st'"
  using assms pool_inv_add_known [OF assms(1,3)]
  by (auto simp: add_known_def split: option.splits)

lemma add_free_inv:
  assumes "add_free from to st = Some st'" "weak_inv (free_ranges st)" "pool_inv st"
    "from \<le> to"
  shows "weak_inv (free_ranges st') \<and> pool_inv st'"
  using assms pool_inv_add_free [OF assms(1,3)]
  by (auto simp: add_free_def split: option.splits dest: add_range_weak)

lemma add_entries_inv:
  assumes "add_entries es st = Some st'" "weak_inv (free_ranges st)" "pool_inv st"
    "\<forall>en\<in>set es. unat (e_addr en) + unat (e_length en) < 2 ^ 64"
  shows "weak_inv (free_ranges st') \<and> pool_inv st'"
  using assms
proof (induction es arbitrary: st)
  case Nil
  then show ?case by simp
next
  case (Cons en es)
  from Cons.prems(1) obtain st1 st2 where
    a: "add_known (e_addr en) (e_addr en + e_length en) st = Some st1"
    and b: "add_free (e_addr en) (e_addr en + e_length en) st1 = Some st2"
    and c: "add_entries es st2 = Some st'"
    by (auto split: option.splits)
  have le: "e_addr en \<le> e_addr en + e_length en"
    using Cons.prems(4) by (intro entry_interval) auto
  from add_known_free_inv [OF a Cons.prems(2,3)]
  have "weak_inv (free_ranges st1)" "pool_inv st1" by simp_all
  from add_free_inv [OF b this le]
  have "weak_inv (free_ranges st2)" "pool_inv st2" by simp_all
  from Cons.IH [OF c this] Cons.prems(4) show ?case by simp
qed

text \<open>
  On a free tree that satisfies the invariant the removal takes exactly \<open>[from, to)\<close>
  out of the covered addresses, in whatever shape the tree is.
\<close>

lemma remove_free_cover:
  assumes "remove_free T from to st = Some st'" "inorder T = free_ranges st"
    "weak_inv (free_ranges st)" "pool_inv st"
  shows "weak_inv (free_ranges st')" "pool_inv st'"
    "covered (free_ranges st') = covered (free_ranges st) - {from ..< to}"
proof -
  from assms(1) obtain t p where
    r0: "uu_balloc_remove_range_on T (balloc_free_list st) from to = Some (t, p)"
    and st': "st' = st\<lparr>free_ranges := t, balloc_free_list := p\<rparr>"
    by (auto simp: remove_free_def split: option.splits)
  have "weak_inv (inorder T)" using assms(2,3) by simp
  from r0 [unfolded remove_range_on_ordered [OF this]]
  have r: "uu_balloc_remove_range (free_ranges st) (balloc_free_list st) from to = Some (t, p)"
    by (simp add: assms(2))
  from remove_range_carve_any [OF assms(3) pool_inv_slots_ok(2) [OF assms(4)], of "from" to] r
  have rs: "ranges t = concat (map (carve from to) (ranges (free_ranges st)))"
    and inv: "weak_inv t"
    by simp_all
  show "weak_inv (free_ranges st')" using inv by (simp add: st')
  show "pool_inv st'" by (rule pool_inv_remove_free [OF assms(1,2,4)])
  show "covered (free_ranges st') = covered (free_ranges st) - {from ..< to}"
    unfolding covered_ranges using carve_cover_any [of "from" to] by (simp add: st' rs)
qed

lemma remove_entries_cover:
  assumes "remove_entries es st st'"
  shows "weak_inv (free_ranges st) \<Longrightarrow> pool_inv st \<Longrightarrow>
    \<forall>en\<in>set es. unat (e_addr en) + unat (e_length en) < 2 ^ 64 \<Longrightarrow>
    weak_inv (free_ranges st') \<and> pool_inv st'
    \<and> covered (free_ranges st') \<subseteq> covered (free_ranges st)
    \<and> (\<forall>en\<in>set es. e_type en \<noteq> 1 \<longrightarrow>
          covered (free_ranges st') \<inter> {e_addr en ..< e_addr en + e_length en} = {})"
  using assms
proof (induction rule: remove_entries.induct)
  case (entries_done st)
  then show ?case by simp
next
  case (entry_removed en T st st1 es st')
  note r = remove_free_cover [OF entry_removed.hyps(3,2) entry_removed.prems(1,2)]
  from entry_removed.IH [OF r(1,2)] entry_removed.prems(3)
  have ih: "weak_inv (free_ranges st') \<and> pool_inv st'"
    "covered (free_ranges st') \<subseteq> covered (free_ranges st1)"
    "\<forall>en\<in>set es. e_type en \<noteq> 1 \<longrightarrow>
        covered (free_ranges st') \<inter> {e_addr en ..< e_addr en + e_length en} = {}"
    by simp_all
  have "covered (free_ranges st') \<inter> {e_addr en ..< e_addr en + e_length en} = {}"
    using ih(2) r(3) by blast
  moreover have "covered (free_ranges st') \<subseteq> covered (free_ranges st)"
    using ih(2) r(3) by blast
  ultimately show ?case using ih(1,3) by simp
next
  case (entry_kept en es st st')
  from entry_kept.IH [OF entry_kept.prems(1,2)] entry_kept.prems(3) entry_kept.hyps(1)
  show ?case by simp
qed

text \<open>
  C6, as stated, fails for a memory map with an entry whose \<open>address + length\<close> wraps
  around \<open>2^64\<close>. The map has the single available entry
  \<open>(0xFFFFFFFFFFFFF000, 0x2000)\<close>, the kernel image is \<open>[0x2000, 0x3000)\<close> and the
  boot module \<open>[0x3000, 0x4000)\<close>. The first loop stores the entry as a node with
  \<open>begin = 0xFFFFFFFFFFFFF000\<close> and \<open>end = 0x1000\<close>; it is the first node of the free
  tree, hence its root. The kernel range is then linked as the left child of that root
  (\<open>rb_link_at\<close>), and a tree of a root and one child is left as it is by the
  rebalancing. Both removals start at the root, find \<open>end = 0x1000\<close> not above
  \<open>from\<close>, go right and end with a null pointer, so nothing is removed:
  \<open>balloc_setup\<close> returns with the kernel image still in the free set.
\<close>

theorem setup_wrapped_entry_counterexample:
  "balloc_setup 64 [\<lparr>e_addr = 0xFFFFFFFFFFFFF000, e_length = 0x2000, e_type = 1\<rparr>]
     0x2000 0x3000 (0x3000, 0x4000)
     \<lparr>memory_map = [\<lparr>node_id = 125, m_begin = 0x2000, m_end = 0x3000\<rparr>,
                     \<lparr>node_id = 127, m_begin = 0xFFFFFFFFFFFFF000, m_end = 0x1000\<rparr>],
      free_ranges = [\<lparr>node_id = 124, m_begin = 0x2000, m_end = 0x3000\<rparr>,
                     \<lparr>node_id = 126, m_begin = 0xFFFFFFFFFFFFF000, m_end = 0x1000\<rparr>],
      balloc_free_list = rev [0 ..< 124]\<rparr>
   \<and> rb_link_at
        (rb_link_at Leaf \<lparr>node_id = 126, m_begin = 0xFFFFFFFFFFFFF000, m_end = 0x1000\<rparr>)
        \<lparr>node_id = 124, m_begin = 0x2000, m_end = 0x3000\<rparr>
      = Node (Node Leaf \<lparr>node_id = 124, m_begin = 0x2000, m_end = 0x3000\<rparr> Leaf)
          \<lparr>node_id = 126, m_begin = 0xFFFFFFFFFFFFF000, m_end = 0x1000\<rparr> Leaf
   \<and> first_ptr
        (Node (Node Leaf \<lparr>node_id = 124, m_begin = 0x2000, m_end = 0x3000\<rparr> Leaf)
           \<lparr>node_id = 126, m_begin = 0xFFFFFFFFFFFFF000, m_end = 0x1000\<rparr> Leaf) 0x2000 = None
   \<and> (0x2000 :: u64) \<in> {0x2000 ..< 0x3000}
   \<and> (0x2000 :: u64) \<in> covered [\<lparr>node_id = 124, m_begin = 0x2000, m_end = 0x3000\<rparr>,
                     \<lparr>node_id = 126, m_begin = 0xFFFFFFFFFFFFF000, m_end = 0x1000\<rparr>]"
proof -
  let ?W = "\<lparr>node_id = 126, m_begin = 0xFFFFFFFFFFFFF000 :: u64, m_end = 0x1000 :: u64\<rparr>"
  let ?K = "\<lparr>node_id = 124, m_begin = 0x2000 :: u64, m_end = 0x3000 :: u64\<rparr>"
  let ?T = "Node (Node Leaf ?K Leaf) ?W Leaf"
  let ?es = "[\<lparr>e_addr = 0xFFFFFFFFFFFFF000, e_length = 0x2000, e_type = 1\<rparr>]"
  let ?s1 = "\<lparr>memory_map = [\<lparr>node_id = 127, m_begin = 0xFFFFFFFFFFFFF000, m_end = 0x1000\<rparr>],
      free_ranges = [?W], balloc_free_list = rev [0 ..< 126]\<rparr>"
  let ?s2 = "\<lparr>memory_map = [\<lparr>node_id = 125, m_begin = 0x2000, m_end = 0x3000\<rparr>,
                     \<lparr>node_id = 127, m_begin = 0xFFFFFFFFFFFFF000, m_end = 0x1000\<rparr>],
      free_ranges = [?W], balloc_free_list = rev [0 ..< 125]\<rparr>"
  let ?s3 = "\<lparr>memory_map = [\<lparr>node_id = 125, m_begin = 0x2000, m_end = 0x3000\<rparr>,
                     \<lparr>node_id = 127, m_begin = 0xFFFFFFFFFFFFF000, m_end = 0x1000\<rparr>],
      free_ranges = [?K, ?W], balloc_free_list = rev [0 ..< 124]\<rparr>"
  have f: "(64 :: 32 word) AND push_bit 6 1 \<noteq> 0" by simp
  have a1: "add_entries ?es (balloc_setup_nodes boot_state) = Some ?s1" by code_simp
  have a2: "add_known 0x2000 0x3000 ?s1 = Some ?s2" by code_simp
  have a3: "add_free 0x2000 0x3000 ?s2 = Some ?s3" by code_simp
  have a4: "remove_entries ?es ?s3 ?s3"
    by (intro remove_entries.entry_kept remove_entries.entries_done) simp
  have t: "inorder ?T = free_ranges ?s3" by simp
  have a5: "remove_free ?T (fst (0x3000 :: u64, 0x4000 :: u64)) (snd (0x3000 :: u64, 0x4000 :: u64)) ?s3
      = Some ?s3"
    by code_simp
  have a6: "remove_free ?T 0x2000 0x3000 ?s3 = Some ?s3" by code_simp
  have run: "balloc_setup 64 ?es 0x2000 0x3000 (0x3000, 0x4000) ?s3"
    unfolding balloc_setup_def by (rule parse_mmap [OF f a1 a2 a3 a4 t a5 t a6])
  have link: "rb_link_at (rb_link_at Leaf ?W) ?K = ?T" by simp
  have c: "(0x2000 :: u64) \<in> covered [?K, ?W]" by (simp add: covered_def)
  have d: "first_ptr ?T 0x2000 = None" by (simp add: first_ptr_def)
  from run link c d show ?thesis by simp
qed

text \<open>
  C6, amended: for a memory map none of whose entries wraps around (\<open>address +
  length\<close> is below \<open>2^64\<close>; the length may be zero), a kernel image range with
  \<open>kbegin <= kend\<close> and any boot-module range, in every state in which
  \<open>balloc_setup\<close> returns, whatever the shapes of the tree were, the free set covers
  no address of an entry whose type is not 1, no address of the boot-module range and no
  address of the kernel image range, however the entries overlap.
\<close>

theorem setup_excludes_reserved:
  assumes "\<forall>en\<in>set entries. unat (e_addr en) + unat (e_length en) < 2 ^ 64"
    and "kbegin \<le> kend"
    and "balloc_setup flags entries kbegin kend init_module st"
  shows "(\<forall>en\<in>set entries. e_type en \<noteq> 1 \<longrightarrow>
            covered (free_ranges st) \<inter> {e_addr en ..< e_addr en + e_length en} = {})
    \<and> covered (free_ranges st) \<inter> {fst init_module ..< snd init_module} = {}
    \<and> covered (free_ranges st) \<inter> {kbegin ..< kend} = {}"
  using assms(3) [unfolded balloc_setup_def]
proof (cases rule: balloc_parse_mmap.cases)
  case (parse_mmap st1 st2 st3 st4 T5 st5 T6)
  let ?s0 = "balloc_setup_nodes boot_state"
  have i0: "weak_inv (free_ranges ?s0)"
    by (simp add: balloc_setup_nodes_def boot_state_def)
  from add_entries_inv [OF parse_mmap(2) i0 pool_inv_init assms(1)]
  have 1: "weak_inv (free_ranges st1)" "pool_inv st1" by simp_all
  from add_known_free_inv [OF parse_mmap(3) 1]
  have 2: "weak_inv (free_ranges st2)" "pool_inv st2" by simp_all
  from add_free_inv [OF parse_mmap(4) 2 assms(2)]
  have 3: "weak_inv (free_ranges st3)" "pool_inv st3" by simp_all
  from remove_entries_cover [OF parse_mmap(5) 3 assms(1)]
  have 4: "weak_inv (free_ranges st4)" "pool_inv st4"
    and e4: "\<forall>en\<in>set entries. e_type en \<noteq> 1 \<longrightarrow>
          covered (free_ranges st4) \<inter> {e_addr en ..< e_addr en + e_length en} = {}"
    by simp_all
  note 5 = remove_free_cover [OF parse_mmap(7,6) 4]
  note 6 = remove_free_cover [OF parse_mmap(9,8) 5(1,2)]
  have sub: "covered (free_ranges st) \<subseteq> covered (free_ranges st5)"
    "covered (free_ranges st5) \<subseteq> covered (free_ranges st4)"
    using 5(3) 6(3) by blast+
  have "\<forall>en\<in>set entries. e_type en \<noteq> 1 \<longrightarrow>
            covered (free_ranges st) \<inter> {e_addr en ..< e_addr en + e_length en} = {}"
    using e4 sub by blast
  moreover have "covered (free_ranges st) \<inter> {fst init_module ..< snd init_module} = {}"
    using 5(3) sub(1) by blast
  moreover have "covered (free_ranges st) \<inter> {kbegin ..< kend} = {}"
    using 6(3) by blast
  ultimately show ?thesis by blast
qed

theorem setup_excludes_reserved_witness:
  "balloc_setup 64
     [\<lparr>e_addr = 0, e_length = 0x100000, e_type = 1\<rparr>,
      \<lparr>e_addr = 0x1000, e_length = 0x1000, e_type = 2\<rparr>]
     0x2000 0x3000 (0x3000, 0x4000)
     \<lparr>memory_map = [\<lparr>node_id = 126, m_begin = 0, m_end = 0x100000\<rparr>],
      free_ranges = [\<lparr>node_id = 127, m_begin = 0, m_end = 0x1000\<rparr>,
                     \<lparr>node_id = 123, m_begin = 0x4000, m_end = 0x100000\<rparr>],
      balloc_free_list = 125 # 124 # rev [0 ..< 123]\<rparr>
   \<and> (0x2000 :: u64) \<le> 0x3000
   \<and> covered [\<lparr>node_id = 127, m_begin = 0, m_end = 0x1000\<rparr>,
               \<lparr>node_id = 123, m_begin = 0x4000, m_end = 0x100000\<rparr>]
        \<inter> {0x1000 ..< 0x1000 + 0x1000} = {}
   \<and> covered [\<lparr>node_id = 127, m_begin = 0, m_end = 0x1000\<rparr>,
               \<lparr>node_id = 123, m_begin = 0x4000, m_end = 0x100000\<rparr>]
        \<inter> {0x3000 ..< 0x4000} = {}
   \<and> covered [\<lparr>node_id = 127, m_begin = 0, m_end = 0x1000\<rparr>,
               \<lparr>node_id = 123, m_begin = 0x4000, m_end = 0x100000\<rparr>]
        \<inter> {0x2000 ..< 0x3000} = {}"
proof -
  let ?es = "[\<lparr>e_addr = 0, e_length = 0x100000, e_type = 1\<rparr>,
      \<lparr>e_addr = 0x1000, e_length = 0x1000, e_type = 2\<rparr>]"
  let ?M = "[\<lparr>node_id = 126, m_begin = 0 :: u64, m_end = 0x100000 :: u64\<rparr>]"
  let ?A = "\<lparr>node_id = 127, m_begin = 0 :: u64, m_end = 0x1000 :: u64\<rparr>"
  let ?B = "\<lparr>node_id = 124, m_begin = 0x2000 :: u64, m_end = 0x100000 :: u64\<rparr>"
  let ?K = "\<lparr>node_id = 125, m_begin = 0x2000 :: u64, m_end = 0x3000 :: u64\<rparr>"
  let ?C = "\<lparr>node_id = 123, m_begin = 0x4000 :: u64, m_end = 0x100000 :: u64\<rparr>"
  let ?F = "\<lparr>node_id = 125, m_begin = 0 :: u64, m_end = 0x100000 :: u64\<rparr>"
  let ?s1 = "\<lparr>memory_map = [\<lparr>node_id = 125, m_begin = 0, m_end = 0x100000\<rparr>],
      free_ranges = [\<lparr>node_id = 127, m_begin = 0, m_end = 0x100000\<rparr>],
      balloc_free_list = 126 # rev [0 ..< 125]\<rparr>"
  let ?s2 = "\<lparr>memory_map = ?M,
      free_ranges = [\<lparr>node_id = 127, m_begin = 0, m_end = 0x100000\<rparr>],
      balloc_free_list = rev [0 ..< 126]\<rparr>"
  let ?s3 = "\<lparr>memory_map = ?M, free_ranges = [?F],
      balloc_free_list = 127 # rev [0 ..< 125]\<rparr>"
  let ?s4 = "\<lparr>memory_map = ?M, free_ranges = [?A, ?B],
      balloc_free_list = 125 # rev [0 ..< 124]\<rparr>"
  let ?s5 = "\<lparr>memory_map = ?M, free_ranges = [?A, ?K, ?C],
      balloc_free_list = 124 # rev [0 ..< 123]\<rparr>"
  let ?s6 = "\<lparr>memory_map = ?M, free_ranges = [?A, ?C],
      balloc_free_list = 125 # 124 # rev [0 ..< 123]\<rparr>"
  let ?T4 = "Node Leaf ?F Leaf"
  let ?T5 = "Node Leaf ?A (Node Leaf ?B Leaf)"
  let ?T6 = "Node (Node Leaf ?A Leaf) ?K (Node Leaf ?C Leaf)"
  have f: "(64 :: 32 word) AND push_bit 6 1 \<noteq> 0" by simp
  have a1: "add_entries ?es (balloc_setup_nodes boot_state) = Some ?s1" by code_simp
  have a2: "add_known 0x2000 0x3000 ?s1 = Some ?s2" by code_simp
  have a3: "add_free 0x2000 0x3000 ?s2 = Some ?s3" by code_simp
  have r4: "remove_free ?T4 0x1000 (0x1000 + 0x1000) ?s3 = Some ?s4" by code_simp
  have a4: "remove_entries ?es ?s3 ?s4"
  proof (rule remove_entries.entry_kept)
    show "e_type \<lparr>e_addr = 0, e_length = 0x100000, e_type = 1\<rparr> = 1" by simp
    show "remove_entries [\<lparr>e_addr = 0x1000, e_length = 0x1000, e_type = 2\<rparr>] ?s3 ?s4"
    proof (rule remove_entries.entry_removed [where T = ?T4 and ?st1.0 = ?s4])
      show "e_type \<lparr>e_addr = 0x1000 :: u64, e_length = 0x1000 :: u64, e_type = 2\<rparr> \<noteq> 1"
        by simp
      show "inorder ?T4 = free_ranges ?s3" by simp
      show "remove_free ?T4 (e_addr \<lparr>e_addr = 0x1000, e_length = 0x1000, e_type = 2\<rparr>)
          (e_addr \<lparr>e_addr = 0x1000, e_length = 0x1000, e_type = 2\<rparr>
             + e_length \<lparr>e_addr = 0x1000, e_length = 0x1000, e_type = 2\<rparr>) ?s3 = Some ?s4"
        using r4 by simp
      show "remove_entries [] ?s4 ?s4" by (rule remove_entries.entries_done)
    qed
  qed
  have t5: "inorder ?T5 = free_ranges ?s4" by simp
  have a5: "remove_free ?T5 (fst (0x3000 :: u64, 0x4000 :: u64)) (snd (0x3000 :: u64, 0x4000 :: u64)) ?s4
      = Some ?s5"
    by code_simp
  have t6: "inorder ?T6 = free_ranges ?s5" by simp
  have a6: "remove_free ?T6 0x2000 0x3000 ?s5 = Some ?s6" by code_simp
  have run: "balloc_setup 64 ?es 0x2000 0x3000 (0x3000, 0x4000) ?s6"
    unfolding balloc_setup_def by (rule parse_mmap [OF f a1 a2 a3 a4 t5 a5 t6 a6])
  have h1: "\<forall>en\<in>set ?es. unat (e_addr en) + unat (e_length en) < 2 ^ 64"
    by simp
  have h2: "(0x2000 :: u64) \<le> 0x3000" by simp
  from setup_excludes_reserved [OF h1 h2 run] run show ?thesis by simp
qed

end
